theory Spec2Isabelle
  imports Main "HOL-Library.Word" "HOL-Library.AList" "HOL-Library.Multiset"
begin

section \<open>Data model of \<open>chia/wallet/puzzles/offer.py\<close>\<close>

text \<open>
  A \<open>bytes32\<close> is a fixed 32-byte value, here a 256-bit word read big-endian, so that the
  lexicographic order of the bytes is the order of the words. Amounts are Python integers
  (\<open>uint64\<close> is an \<open>int\<close> subclass whose constructor checks the range).
\<close>

type_synonym bytes = "8 word list"
type_synonym bytes32 = "256 word"

definition ZERO_32 :: bytes32 where
  "ZERO_32 = 0"

text \<open>
  The exceptions the module can raise. The four \<open>ValueError\<close>s of \<open>offer.py\<close> are told
  apart by their message: \<open>EmptyOffer\<close> is "Bundle is not offering anything",
  \<open>DuplicatePayment\<close> is "Bundle has duplicate requested payments", \<open>OverlappingInputs\<close> is
  "The aggregated offers overlap inputs", \<open>Incomplete\<close> is "Offer is currently incomplete".
  \<open>Overflow\<close> is the \<open>ValueError\<close> of \<open>uint64\<close>, \<open>Malformed\<close> the failure of a decoder.
\<close>

datatype error =
    EmptyOffer | DuplicatePayment | OverlappingInputs | Incomplete
  | Overflow | Malformed | IndexError | KeyError | AssertionError

record coin =
  parent_coin_info :: bytes32
  puzzle_hash :: bytes32
  amount :: int

record payment =
  puzzle_hash :: bytes32
  amount :: int
  memos :: "bytes list"

text \<open>\<open>class NotarizedPayment(Payment)\<close> with \<open>nonce: bytes32 = ZERO_32\<close>.\<close>

record notarized_payment = payment +
  nonce :: bytes32

record 'p coin_spend =
  coin :: coin
  puzzle_reveal :: 'p
  solution :: 'p

record ('p, 's) spend_bundle =
  coin_spends :: "'p coin_spend list"
  aggregated_signature :: 's

text \<open>The asset key of the dictionaries: \<open>None\<close> is the native asset, \<open>Some tail\<close> a token.\<close>

type_synonym asset_key = "bytes32 option"

text \<open>
  A Python \<open>dict\<close> is an association list in insertion order with distinct keys:
  \<open>d[k] = v\<close> is \<^const>\<open>AList.update\<close> (overwrite in place, or append), \<open>d[k]\<close> and
  \<open>k in d\<close> are \<^const>\<open>map_of\<close>.
\<close>

type_synonym ('k, 'v) dict = "('k \<times> 'v) list"

definition dict_get :: "('k, 'v) dict \<Rightarrow> 'k \<Rightarrow> 'v \<Rightarrow> 'v" where
  "dict_get d k dflt = (case map_of d k of Some v \<Rightarrow> v | None \<Rightarrow> dflt)"

record ('p, 's) offer =
  requested_payments :: "(asset_key, notarized_payment list) dict"
  "bundle" :: "('p, 's) spend_bundle"

text \<open>The Python values that the module hands to \<open>Program.to\<close>.\<close>

datatype 'p pyval =
    PyBytes32 bytes32
  | PyInt int
  | PyBytes bytes
  | PyList "'p pyval list"
  | PyProgram 'p

subsection \<open>Collaborators\<close>

text \<open>
  \<open>Program\<close>, \<open>Coin\<close>, \<open>Payment\<close>, \<open>CoinSpend\<close>, the CAT helpers and the two compiled
  puzzles are imported by \<open>offer.py\<close> from modules that are not part of the sources at hand.
  The program type is a type parameter and each imported operation is a field of this
  record, so that every function below is the source's function over any implementation
  of them:
  \<^item> \<open>tree_hash\<close> is \<open>Program.get_tree_hash\<close>, \<open>program_to\<close> is \<open>Program.to\<close>, \<open>as_iter\<close>
    is \<open>Program.as_iter\<close>, \<open>as_bytes32\<close> is \<open>bytes32(p.as_python())\<close>;
  \<^item> \<open>payment_from_condition\<close> is \<open>Payment.from_condition\<close>, \<open>payment_name\<close> is the
    \<open>name()\<close> a \<open>NotarizedPayment\<close> inherits;
  \<^item> \<open>coin_name\<close> is \<open>Coin.name\<close>, \<open>coin_as_list\<close> is \<open>Coin.as_list\<close>;
  \<^item> \<open>match_cat_puzzle\<close> gives the three curried arguments when the puzzle is a CAT, the
    second already read as the 32-byte tail hash;
  \<^item> \<open>spend_additions\<close> is \<open>CoinSpend.additions\<close>, the coins created by running one spend;
  \<^item> \<open>cat_spend_solution\<close> is the solution of the single spend that
    \<open>unsigned_spend_bundle_for_spendable_cats\<close> builds for one \<open>SpendableCAT\<close>, given the
    coin, the tail hash, the inner puzzle, the inner solution and the lineage proof.
\<close>

record 'p collaborators =
  tree_hash :: "'p \<Rightarrow> bytes32"
  program_to :: "'p pyval \<Rightarrow> 'p"
  as_iter :: "'p \<Rightarrow> 'p list"
  as_bytes32 :: "'p \<Rightarrow> bytes32 option"
  payment_from_condition :: "'p \<Rightarrow> payment option"
  payment_name :: "notarized_payment \<Rightarrow> bytes32"
  coin_name :: "coin \<Rightarrow> bytes32"
  coin_as_list :: "coin \<Rightarrow> 'p pyval"
  OFFER_MOD :: 'p
  CAT_MOD :: 'p
  construct_cat_puzzle :: "'p \<Rightarrow> bytes32 \<Rightarrow> 'p \<Rightarrow> 'p"
  match_cat_puzzle :: "'p \<Rightarrow> ('p \<times> bytes32 \<times> 'p) option"
  spend_additions :: "'p coin_spend \<Rightarrow> coin list"
  cat_spend_solution :: "coin \<Rightarrow> bytes32 \<Rightarrow> 'p \<Rightarrow> 'p \<Rightarrow> (bytes32 \<times> bytes32 \<times> int) \<Rightarrow> 'p"

text \<open>
  Modelled from the spec: \<open>uint64\<close> of \<open>chia.util.ints\<close>, whose constructor refuses a value
  outside the 64-bit range ("Overflow: amount sums exceed the 64-bit range").
\<close>

definition uint64 :: "int \<Rightarrow> error + int" where
  "uint64 v = (if 0 \<le> v \<and> v < 2 ^ 64 then Inr v else Inl Overflow)"

text \<open>
  Modelled from the spec: \<open>SpendBundle.additions\<close>, "the outputs implied by running each
  puzzle/solution", spend by spend in order.
\<close>

definition additions :: "'p collaborators \<Rightarrow> ('p, 's) spend_bundle \<Rightarrow> coin list" where
  "additions env b = concat (map (spend_additions env) (coin_spends b))"

text \<open>
  Modelled from the spec: \<open>SpendBundle.aggregate\<close>, "union of spends + signature
  aggregation". Signatures are the elements of a monoid whose neutral element is the
  default \<open>G2Element()\<close>.
\<close>

definition SpendBundle_aggregate ::
  "('p, 's::monoid_add) spend_bundle list \<Rightarrow> ('p, 's) spend_bundle" where
  "SpendBundle_aggregate bs =
     \<lparr>coin_spends = concat (map coin_spends bs),
      aggregated_signature = sum_list (map aggregated_signature bs)\<rparr>"

section \<open>The payment model\<close>

text \<open>Modelled from the spec: \<open>Payment.as_condition_args\<close>, \<open>[puzzle_hash, amount, memos]\<close>.\<close>

definition as_condition_args :: "'a payment_scheme \<Rightarrow> 'p pyval list" where
  "as_condition_args p =
     [PyBytes32 (payment.puzzle_hash p), PyInt (payment.amount p),
      PyList (map PyBytes (memos p))]"

text \<open>\<open>NotarizedPayment.as_condition\<close>: \<open>Program.to([self.nonce, *self.as_condition_args()])\<close>.\<close>

definition as_condition :: "'p collaborators \<Rightarrow> notarized_payment \<Rightarrow> 'p" where
  "as_condition env np =
     program_to env (PyList (PyBytes32 (nonce np) # as_condition_args np))"

text \<open>
  \<open>NotarizedPayment(*p.as_condition_args(), nonce)\<close>: the constructor called with the three
  fields of a payment and a nonce.
\<close>

definition NotarizedPayment :: "'a payment_scheme \<Rightarrow> bytes32 \<Rightarrow> notarized_payment" where
  "NotarizedPayment p n =
     \<lparr>payment.puzzle_hash = payment.puzzle_hash p, payment.amount = payment.amount p,
      memos = memos p, nonce = n\<rparr>"

text \<open>
  \<open>NotarizedPayment.from_condition\<close>: the payment is read by \<open>Payment.from_condition\<close>, the
  nonce is the first element of the condition (\<open>next\<close> on an empty iterator raises, and so does
  \<open>bytes32\<close> on an atom that is not 32 bytes long).
\<close>

definition from_condition :: "'p collaborators \<Rightarrow> 'p \<Rightarrow> error + notarized_payment" where
  "from_condition env condition =
     (case payment_from_condition env condition of
        None \<Rightarrow> Inl Malformed
      | Some p \<Rightarrow>
          (case as_iter env condition of
             [] \<Rightarrow> Inl Malformed
           | first # _ \<Rightarrow>
               (case as_bytes32 env first of
                  None \<Rightarrow> Inl Malformed
                | Some n \<Rightarrow> Inr (NotarizedPayment p n))))"

section \<open>The offer analyzer\<close>

text \<open>
  The settlement puzzle of an asset key and its hash:
  \<open>construct_cat_puzzle(CAT_MOD, tail_hash, OFFER_MOD) if tail_hash else OFFER_MOD\<close>.
  A \<open>bytes32\<close> is never empty, so only \<open>None\<close> is falsy.
\<close>

definition settlement_puzzle :: "'p collaborators \<Rightarrow> asset_key \<Rightarrow> 'p" where
  "settlement_puzzle env tail_hash =
     (case tail_hash of
        Some t \<Rightarrow> construct_cat_puzzle env (CAT_MOD env) t (OFFER_MOD env)
      | None \<Rightarrow> OFFER_MOD env)"

text \<open>
  The first spend whose coin name is the given parent id:
  \<open>list(filter(lambda cs: cs.coin.name() == parent, coin_spends))[0]\<close>.
\<close>

definition parent_spend :: "'p collaborators \<Rightarrow> 'p coin_spend list \<Rightarrow> bytes32 \<Rightarrow> error + 'p coin_spend" where
  "parent_spend env spends parent =
     (case filter (\<lambda>cs. coin_name env (coin cs) = parent) spends of
        [] \<Rightarrow> Inl IndexError
      | cs # _ \<Rightarrow> Inr cs)"

text \<open>The asset key that the puzzle of a parent spend stands for.\<close>

definition asset_of_puzzle :: "'p collaborators \<Rightarrow> 'p \<Rightarrow> asset_key" where
  "asset_of_puzzle env puzzle =
     (case match_cat_puzzle env puzzle of
        Some (_, tail_hash, _) \<Rightarrow> Some tail_hash
      | None \<Rightarrow> None)"

text \<open>
  The loop of \<open>get_offered_coins\<close> over the additions of the bundle, with the dictionary
  built so far.
\<close>

fun offered_loop ::
  "'p collaborators \<Rightarrow> 'p coin_spend list \<Rightarrow> coin list \<Rightarrow> (asset_key, coin list) dict
     \<Rightarrow> error + (asset_key, coin list) dict" where
  "offered_loop env spends [] offered_coins = Inr offered_coins"
| "offered_loop env spends (addition # rest) offered_coins =
     (case parent_spend env spends (parent_coin_info addition) of
        Inl e \<Rightarrow> Inl e
      | Inr parent \<Rightarrow>
          (let tail_hash = asset_of_puzzle env (puzzle_reveal parent);
               offer_ph = tree_hash env (settlement_puzzle env tail_hash)
           in if coin.puzzle_hash addition = offer_ph
              then (case map_of offered_coins tail_hash of
                      Some coins \<Rightarrow>
                        offered_loop env spends rest
                          (AList.update tail_hash (coins @ [addition]) offered_coins)
                    | None \<Rightarrow>
                        offered_loop env spends rest
                          (AList.update tail_hash [addition] offered_coins))
              else offered_loop env spends rest offered_coins))"

definition get_offered_coins ::
  "'p collaborators \<Rightarrow> ('p, 's) offer \<Rightarrow> error + (asset_key, coin list) dict" where
  "get_offered_coins env self =
     offered_loop env (coin_spends (bundle self)) (additions env (bundle self)) []"

text \<open>
  The loop shared by \<open>get_offered_amounts\<close> and \<open>get_requested_amounts\<close>:
  \<open>amounts[asset_id] = uint64(sum([c.amount for c in coins]))\<close> for each item.
\<close>

fun amounts_loop ::
  "(asset_key, int list) dict \<Rightarrow> (asset_key, int) dict \<Rightarrow> error + (asset_key, int) dict" where
  "amounts_loop [] amounts = Inr amounts"
| "amounts_loop ((asset_id, amts) # rest) amounts =
     (case uint64 (sum_list amts) of
        Inl e \<Rightarrow> Inl e
      | Inr v \<Rightarrow> amounts_loop rest (AList.update asset_id v amounts))"

definition get_offered_amounts ::
  "'p collaborators \<Rightarrow> ('p, 's) offer \<Rightarrow> error + (asset_key, int) dict" where
  "get_offered_amounts env self =
     (case get_offered_coins env self of
        Inl e \<Rightarrow> Inl e
      | Inr offered_coins \<Rightarrow>
          amounts_loop (map (\<lambda>(asset_id, coins). (asset_id, map coin.amount coins)) offered_coins) [])"

definition get_requested_payments ::
  "('p, 's) offer \<Rightarrow> (asset_key, notarized_payment list) dict" where
  "get_requested_payments self = requested_payments self"

definition get_requested_amounts :: "('p, 's) offer \<Rightarrow> error + (asset_key, int) dict" where
  "get_requested_amounts self =
     amounts_loop
       (map (\<lambda>(asset_id, coins). (asset_id, map payment.amount coins)) (requested_payments self)) []"

text \<open>
  \<open>arbitrage\<close>: the keys of the requested amounts, then those of the offered amounts, each
  assigned \<open>offered_amounts.get(asset_id, 0) - requested_amounts.get(asset_id, 0)\<close>.
\<close>

definition arbitrage :: "'p collaborators \<Rightarrow> ('p, 's) offer \<Rightarrow> error + (asset_key, int) dict" where
  "arbitrage env self =
     (case get_offered_amounts env self of
        Inl e \<Rightarrow> Inl e
      | Inr offered_amounts \<Rightarrow>
          (case get_requested_amounts self of
             Inl e \<Rightarrow> Inl e
           | Inr requested_amounts \<Rightarrow>
               Inr (fold
                 (\<lambda>asset_id arbitrage_dict.
                    AList.update asset_id
                      (dict_get offered_amounts asset_id 0 - dict_get requested_amounts asset_id 0)
                      arbitrage_dict)
                 (map fst requested_amounts @ map fst offered_amounts) [])))"

definition is_valid :: "'p collaborators \<Rightarrow> ('p, 's) offer \<Rightarrow> error + bool" where
  "is_valid env self =
     (case arbitrage env self of
        Inl e \<Rightarrow> Inl e
      | Inr arbitrage_dict \<Rightarrow> Inr (list_all (\<lambda>v. 0 \<le> v) (map snd arbitrage_dict)))"

text \<open>
  \<open>__post_init__\<close>, run by the constructor of the frozen dataclass: something is offered,
  and no list of requested payments holds two payments of the same name.
\<close>

definition post_init :: "'p collaborators \<Rightarrow> ('p, 's) offer \<Rightarrow> error + unit" where
  "post_init env self =
     (case get_offered_coins env self of
        Inl e \<Rightarrow> Inl e
      | Inr offered_coins \<Rightarrow>
          if offered_coins = [] then Inl EmptyOffer
          else if list_ex
                    (\<lambda>payments.
                       let payment_programs = map (payment_name env) payments
                       in card (set payment_programs) \<noteq> length payment_programs)
                    (map snd (requested_payments self))
          then Inl DuplicatePayment
          else Inr ())"

definition Offer ::
  "'p collaborators \<Rightarrow> (asset_key, notarized_payment list) dict \<Rightarrow> ('p, 's) spend_bundle
     \<Rightarrow> error + ('p, 's) offer" where
  "Offer env rp b =
     (let self = \<lparr>requested_payments = rp, bundle = b\<rparr>
      in case post_init env self of Inl e \<Rightarrow> Inl e | Inr _ \<Rightarrow> Inr self)"

section \<open>Completion\<close>

text \<open>Running a loop body over a list, stopping at the first exception.\<close>

fun traverse :: "('a \<Rightarrow> error + 'b) \<Rightarrow> 'a list \<Rightarrow> error + 'b list" where
  "traverse f [] = Inr []"
| "traverse f (x # xs) =
     (case f x of
        Inl e \<Rightarrow> Inl e
      | Inr y \<Rightarrow> (case traverse f xs of Inl e \<Rightarrow> Inl e | Inr ys \<Rightarrow> Inr (y # ys)))"

text \<open>
  \<open>all_payments\<close> of \<open>to_valid_spend\<close>: a copy of the requested payments, followed when the
  surplus is positive by \<open>NotarizedPayment(arbitrage_ph, arbitrage_amount)\<close>. That call gives
  neither memos nor nonce; the nonce defaults to \<open>ZERO_32\<close>, and (modelled from the spec) the
  memos default to the empty sequence.
\<close>

definition all_payments :: "bytes32 \<Rightarrow> notarized_payment list \<Rightarrow> int \<Rightarrow> notarized_payment list" where
  "all_payments arbitrage_ph payments arbitrage_amount =
     (if 0 < arbitrage_amount
      then payments @
             [\<lparr>payment.puzzle_hash = arbitrage_ph, payment.amount = arbitrage_amount,
               memos = [], nonce = ZERO_32\<rparr>]
      else payments)"

text \<open>
  \<open>inner_solution\<close>: the conditions of all payments for the first offered coin, the empty
  list for every other one.
\<close>

definition inner_solution ::
  "'p collaborators \<Rightarrow> notarized_payment list \<Rightarrow> coin \<Rightarrow> coin \<Rightarrow> 'p" where
  "inner_solution env payments first c =
     program_to env
       (PyList (if c = first then map (\<lambda>np. PyProgram (as_condition env np)) payments else []))"

text \<open>The body of the loop over the offered coins of one asset.\<close>

definition completion_spend ::
  "'p collaborators \<Rightarrow> 'p coin_spend list \<Rightarrow> asset_key \<Rightarrow> notarized_payment list \<Rightarrow> coin
     \<Rightarrow> coin \<Rightarrow> error + 'p coin_spend" where
  "completion_spend env spends tail_hash payments first c =
     (case tail_hash of
        Some tail \<Rightarrow>
          (case parent_spend env spends (parent_coin_info c) of
             Inl e \<Rightarrow> Inl e
           | Inr parent \<Rightarrow>
               (case match_cat_puzzle env (puzzle_reveal parent) of
                  None \<Rightarrow> Inl AssertionError
                | Some (_, _, inner_puzzle) \<Rightarrow>
                    Inr \<lparr>coin = c,
                         puzzle_reveal = construct_cat_puzzle env (CAT_MOD env) tail (OFFER_MOD env),
                         solution =
                           cat_spend_solution env c tail (OFFER_MOD env)
                             (inner_solution env payments first c)
                             (parent_coin_info (coin parent), tree_hash env inner_puzzle,
                              coin.amount (coin parent))\<rparr>))
      | None \<Rightarrow>
          Inr \<lparr>coin = c, puzzle_reveal = OFFER_MOD env,
               solution = inner_solution env payments first c\<rparr>)"

text \<open>
  The body of the loop over \<open>requested_payments.items()\<close>: both lookups by \<open>tail_hash\<close>
  raise \<open>KeyError\<close> on a missing key.
\<close>

definition completion_spends_for ::
  "'p collaborators \<Rightarrow> ('p, 's) offer \<Rightarrow> bytes32 \<Rightarrow> asset_key \<times> notarized_payment list
     \<Rightarrow> error + 'p coin_spend list" where
  "completion_spends_for env self arbitrage_ph item =
     (case item of (tail_hash, payments) \<Rightarrow>
        (case get_offered_coins env self of
           Inl e \<Rightarrow> Inl e
         | Inr offered \<Rightarrow>
             (case map_of offered tail_hash of
                None \<Rightarrow> Inl KeyError
              | Some offered_coins \<Rightarrow>
                  (case arbitrage env self of
                     Inl e \<Rightarrow> Inl e
                   | Inr arbitrage_dict \<Rightarrow>
                       (case map_of arbitrage_dict tail_hash of
                          None \<Rightarrow> Inl KeyError
                        | Some arbitrage_amount \<Rightarrow>
                            (case offered_coins of
                               [] \<Rightarrow> Inr []
                             | first # _ \<Rightarrow>
                                 traverse
                                   (completion_spend env (coin_spends (bundle self)) tail_hash
                                      (all_payments arbitrage_ph payments arbitrage_amount) first)
                                   offered_coins))))))"

definition to_valid_spend ::
  "'p collaborators \<Rightarrow> ('p, 's::monoid_add) offer \<Rightarrow> bytes32 \<Rightarrow> error + ('p, 's) spend_bundle" where
  "to_valid_spend env self arbitrage_ph =
     (case is_valid env self of
        Inl e \<Rightarrow> Inl e
      | Inr valid \<Rightarrow>
          if \<not> valid then Inl Incomplete
          else (case traverse (completion_spends_for env self arbitrage_ph) (requested_payments self) of
                  Inl e \<Rightarrow> Inl e
                | Inr completion_spends \<Rightarrow>
                    Inr (SpendBundle_aggregate
                           [\<lparr>coin_spends = concat completion_spends, aggregated_signature = 0\<rparr>,
                            bundle self])))"

section \<open>Serialization\<close>

text \<open>
  The byte codec of \<open>SpendBundle\<close> is the collaborator's: \<open>bytes(bundle)\<close> and
  \<open>SpendBundle.from_bytes\<close>, over any type \<open>'w\<close> of wire strings.
\<close>

record ('p, 's, 'w) codec =
  spend_bundle_bytes :: "('p, 's) spend_bundle \<Rightarrow> 'w"
  spend_bundle_from_bytes :: "'w \<Rightarrow> ('p, 's) spend_bundle option"

text \<open>The dummy spend that \<open>__bytes__\<close> writes for one item of the requested payments.\<close>

definition additional_coin_spend ::
  "'p collaborators \<Rightarrow> asset_key \<times> notarized_payment list \<Rightarrow> 'p coin_spend" where
  "additional_coin_spend env item =
     (case item of (tail_hash, payments) \<Rightarrow>
        (let reveal = settlement_puzzle env tail_hash
         in \<lparr>coin = \<lparr>parent_coin_info = ZERO_32, coin.puzzle_hash = tree_hash env reveal,
                      coin.amount = 0\<rparr>,
              puzzle_reveal = reveal,
              solution = program_to env (PyList (map (\<lambda>np. PyProgram (as_condition env np)) payments))\<rparr>))"

text \<open>\<open>Offer.__bytes__\<close>.\<close>

definition Offer_bytes ::
  "'p collaborators \<Rightarrow> ('p, 's::monoid_add, 'w) codec \<Rightarrow> ('p, 's) offer \<Rightarrow> 'w" where
  "Offer_bytes env cd self =
     spend_bundle_bytes cd
       (SpendBundle_aggregate
          [\<lparr>coin_spends = map (additional_coin_spend env) (requested_payments self),
            aggregated_signature = 0\<rparr>,
           bundle self])"

text \<open>
  The loop of \<open>from_bytes\<close> over the decoded spends, with the dictionary and the leftover
  spends built so far.
\<close>

fun from_bytes_loop ::
  "'p collaborators \<Rightarrow> 'p coin_spend list \<Rightarrow> (asset_key, notarized_payment list) dict
     \<Rightarrow> 'p coin_spend list
     \<Rightarrow> error + (asset_key, notarized_payment list) dict \<times> 'p coin_spend list" where
  "from_bytes_loop env [] rp leftover_coin_spends = Inr (rp, leftover_coin_spends)"
| "from_bytes_loop env (cs # rest) rp leftover_coin_spends =
     (if parent_coin_info (coin cs) = ZERO_32
      then (let tail_hash = asset_of_puzzle env (puzzle_reveal cs)
            in case traverse (from_condition env) (as_iter env (solution cs)) of
                 Inl e \<Rightarrow> Inl e
               | Inr payments \<Rightarrow>
                   from_bytes_loop env rest (AList.update tail_hash payments rp)
                     leftover_coin_spends)
      else from_bytes_loop env rest rp (leftover_coin_spends @ [cs]))"

definition from_bytes ::
  "'p collaborators \<Rightarrow> ('p, 's, 'w) codec \<Rightarrow> 'w \<Rightarrow> error + ('p, 's) offer" where
  "from_bytes env cd as_bytes =
     (case spend_bundle_from_bytes cd as_bytes of
        None \<Rightarrow> Inl Malformed
      | Some b \<Rightarrow>
          (case from_bytes_loop env (coin_spends b) [] [] of
             Inl e \<Rightarrow> Inl e
           | Inr (rp, leftover_coin_spends) \<Rightarrow>
               Offer env rp
                 \<lparr>coin_spends = leftover_coin_spends,
                  aggregated_signature = aggregated_signature b\<rparr>))"

section \<open>The offer builder\<close>

text \<open>
  The nonce of \<open>notarize_payments\<close>: the coins sorted by name (\<open>sorted\<close> is stable), each as
  its list form, and the tree hash of the program of that list.
\<close>

definition notarize_nonce :: "'p collaborators \<Rightarrow> coin list \<Rightarrow> bytes32" where
  "notarize_nonce env coins =
     (let sorted_coins = sort_key (coin_name env) coins;
          sorted_coin_list = map (coin_as_list env) sorted_coins
      in tree_hash env (program_to env (PyList sorted_coin_list)))"

text \<open>
  \<open>notarize_payments\<close> assigns into the dictionary it is given, so the dictionary is an
  object of a heap, named by a reference. A slot of it holds a list of \<open>Payment\<close>s before
  the call and a list of \<open>NotarizedPayment\<close>s after it; the lists themselves are built
  fresh and never written to. The loop runs over the items of the dictionary as the call
  finds it: an assignment to a key that is present changes neither the keys nor their order.
\<close>

type_synonym payments_dict = "(asset_key, payment list + notarized_payment list) dict"

definition notarized :: "bytes32 \<Rightarrow> payment list + notarized_payment list \<Rightarrow> notarized_payment list" where
  "notarized n payments =
     (case payments of
        Inl ps \<Rightarrow> map (\<lambda>p. NotarizedPayment p n) ps
      | Inr nps \<Rightarrow> map (\<lambda>p. NotarizedPayment p n) nps)"

definition notarize_payments ::
  "'p collaborators \<Rightarrow> (nat \<Rightarrow> payments_dict) \<Rightarrow> nat \<Rightarrow> coin list \<Rightarrow> (nat \<Rightarrow> payments_dict) \<times> nat" where
  "notarize_payments env heap requested coins =
     (let n = notarize_nonce env coins;
          d = fold (\<lambda>(tail_hash, payments) d. AList.update tail_hash (Inr (notarized n payments)) d)
                (heap requested) (heap requested)
      in (heap(requested := d), requested))"

section \<open>Aggregation\<close>

text \<open>
  \<open>aggregate\<close> binds the payment lists of its input offers into the new dictionary and
  extends them there, so the lists are objects of a heap and an offer object holds, for
  each asset key, the reference of its list. \<open>load\<close> reads the value of an offer object.
\<close>

type_synonym list_heap = "nat \<Rightarrow> notarized_payment list"

record ('p, 's) offer_object =
  payment_lists :: "(asset_key, nat) dict"
  object_bundle :: "('p, 's) spend_bundle"

definition load :: "list_heap \<Rightarrow> ('p, 's) offer_object \<Rightarrow> ('p, 's) offer" where
  "load heap obj =
     \<lparr>requested_payments = map (\<lambda>(tail, r). (tail, heap r)) (payment_lists obj),
      bundle = object_bundle obj\<rparr>"

text \<open>
  The inner loop: \<open>total_requested_payments[tail].extend(payments)\<close> when the key is there,
  \<open>total_requested_payments[tail] = payments\<close> (the same list object) when it is not.
\<close>

fun extend_loop ::
  "(asset_key, nat) dict \<Rightarrow> list_heap \<Rightarrow> (asset_key, nat) dict \<Rightarrow> list_heap \<times> (asset_key, nat) dict" where
  "extend_loop [] heap total_payments = (heap, total_payments)"
| "extend_loop ((tail, payments) # rest) heap total_payments =
     (case map_of total_payments tail of
        Some r \<Rightarrow> extend_loop rest (heap(r := heap r @ heap payments)) total_payments
      | None \<Rightarrow> extend_loop rest heap (AList.update tail payments total_payments))"

fun aggregate_loop ::
  "('p, 's::monoid_add) offer_object list \<Rightarrow> list_heap \<Rightarrow> (asset_key, nat) dict
     \<Rightarrow> ('p, 's) spend_bundle \<Rightarrow> list_heap \<times> (error + ('p, 's) offer_object)" where
  "aggregate_loop [] heap total_requested_payments total_bundle =
     (heap, Inr \<lparr>payment_lists = total_requested_payments, object_bundle = total_bundle\<rparr>)"
| "aggregate_loop (obj # rest) heap total_requested_payments total_bundle =
     (let total_inputs = set (map coin (coin_spends total_bundle));
          offer_inputs = set (map coin (coin_spends (object_bundle obj)))
      in if total_inputs \<inter> offer_inputs \<noteq> {} then (heap, Inl OverlappingInputs)
         else (case extend_loop (payment_lists obj) heap total_requested_payments of
                 (heap', total_payments) \<Rightarrow>
                   aggregate_loop rest heap' total_payments
                     (SpendBundle_aggregate [total_bundle, object_bundle obj])))"

text \<open>
  \<open>Offer.aggregate\<close>: the loop from the empty dictionary and the empty bundle, then the
  constructor (hence \<open>__post_init__\<close>) on what it built. The heap is returned in either case:
  an exception does not undo the writes made before it.
\<close>

definition aggregate ::
  "'p collaborators \<Rightarrow> list_heap \<Rightarrow> ('p, 's::monoid_add) offer_object list
     \<Rightarrow> list_heap \<times> (error + ('p, 's) offer_object)" where
  "aggregate env heap offers =
     (case aggregate_loop offers heap [] \<lparr>coin_spends = [], aggregated_signature = 0\<rparr> of
        (heap', Inl e) \<Rightarrow> (heap', Inl e)
      | (heap', Inr obj) \<Rightarrow>
          (case post_init env (load heap' obj) of
             Inl e \<Rightarrow> (heap', Inl e)
           | Inr _ \<Rightarrow> (heap', Inr obj)))"

section \<open>An implementation of the collaborators\<close>

text \<open>
  A small implementation of the collaborators, on which the functions above can be run:
  programs are typed trees, \<open>Program.to\<close> keeps the structure of the value it is given,
  currying is a constructor, and the hash of a tree is computed from its shape and atoms.
\<close>

datatype sexp =
    Atom32 bytes32 | AtomInt int | AtomBytes bytes | SList "sexp list"
  | Settlement | CatModule | Curry sexp bytes32 sexp

fun sexp_to :: "sexp pyval \<Rightarrow> sexp" where
  "sexp_to (PyBytes32 h) = Atom32 h"
| "sexp_to (PyInt i) = AtomInt i"
| "sexp_to (PyBytes b) = AtomBytes b"
| "sexp_to (PyList xs) = SList (map sexp_to xs)"
| "sexp_to (PyProgram p) = p"

fun sexp_hash :: "sexp \<Rightarrow> bytes32" where
  "sexp_hash (Atom32 h) = h"
| "sexp_hash (AtomInt i) = of_int i"
| "sexp_hash (AtomBytes b) = of_nat (length b)"
| "sexp_hash (SList xs) = 1000003 * of_nat (length xs) + sum_list (map sexp_hash xs)"
| "sexp_hash Settlement = 1000"
| "sexp_hash CatModule = 1001"
| "sexp_hash (Curry m t i) = 2000 + t"

fun sexp_iter :: "sexp \<Rightarrow> sexp list" where
  "sexp_iter (SList xs) = xs"
| "sexp_iter _ = []"

fun sexp_bytes32 :: "sexp \<Rightarrow> bytes32 option" where
  "sexp_bytes32 (Atom32 h) = Some h"
| "sexp_bytes32 _ = None"

fun sexp_bytes :: "sexp \<Rightarrow> bytes" where
  "sexp_bytes (AtomBytes b) = b"
| "sexp_bytes _ = []"

fun sexp_payment :: "sexp \<Rightarrow> payment option" where
  "sexp_payment (SList [_, Atom32 ph, AtomInt a, SList ms]) =
     Some \<lparr>payment.puzzle_hash = ph, payment.amount = a, memos = map sexp_bytes ms\<rparr>"
| "sexp_payment _ = None"

fun sexp_match :: "sexp \<Rightarrow> (sexp \<times> bytes32 \<times> sexp) option" where
  "sexp_match (Curry m t i) = (if m = CatModule then Some (Atom32 (sexp_hash m), t, i) else None)"
| "sexp_match _ = None"

definition sexp_coin_name :: "coin \<Rightarrow> bytes32" where
  "sexp_coin_name c = 7 * parent_coin_info c + 3 * coin.puzzle_hash c + of_int (coin.amount c) + 1"

text \<open>
  Running a spend: its solution lists the coins it creates, each as a pair of a puzzle hash
  and an amount, and every created coin has the spent coin as its parent.
\<close>

fun sexp_created :: "bytes32 \<Rightarrow> sexp \<Rightarrow> coin list" where
  "sexp_created parent (SList [Atom32 ph, AtomInt a]) =
     [\<lparr>parent_coin_info = parent, coin.puzzle_hash = ph, coin.amount = a\<rparr>]"
| "sexp_created parent _ = []"

definition sexp_env :: "sexp collaborators" where
  "sexp_env =
     \<lparr>tree_hash = sexp_hash, program_to = sexp_to, as_iter = sexp_iter,
      as_bytes32 = sexp_bytes32, payment_from_condition = sexp_payment,
      payment_name = (\<lambda>np. sexp_hash (sexp_to (PyList (PyBytes32 (nonce np) # as_condition_args np)))),
      coin_name = sexp_coin_name,
      coin_as_list = (\<lambda>c. PyList [PyBytes32 (parent_coin_info c), PyBytes32 (coin.puzzle_hash c), PyInt (coin.amount c)]),
      OFFER_MOD = Settlement, CAT_MOD = CatModule,
      construct_cat_puzzle = Curry, match_cat_puzzle = sexp_match,
      spend_additions = (\<lambda>cs. concat (map (sexp_created (sexp_coin_name (coin cs))) (sexp_iter (solution cs)))),
      cat_spend_solution = (\<lambda>c t inner_puzzle inner_solution lineage. inner_solution)\<rparr>"


subsection \<open>Well-formed bundles and duplicate payments\<close>

text \<open>
  A bundle is well formed when the parent of every addition is the coin name of exactly one
  of its spends. A dictionary of requested payments has a duplicate when, under some key,
  two payments of the list have the same name.
\<close>

definition well_formed_bundle :: "'p collaborators \<Rightarrow> ('p, 's) spend_bundle \<Rightarrow> bool" where
  "well_formed_bundle env b =
     list_all
       (\<lambda>addition.
          length (filter (\<lambda>cs. coin_name env (coin cs) = parent_coin_info addition) (coin_spends b)) = 1)
       (additions env b)"

definition duplicate_payment ::
  "'p collaborators \<Rightarrow> (asset_key, notarized_payment list) dict \<Rightarrow> bool" where
  "duplicate_payment env rp =
     list_ex (\<lambda>payments. \<not> distinct (map (payment_name env) payments)) (map snd rp)"

subsection \<open>Sample offers\<close>

text \<open>
  Offer A spends a native coin of 1000 into the settlement puzzle and requests 500 of the
  token with tail 9.
\<close>

definition coinA :: coin where
  "coinA = \<lparr>parent_coin_info = 5, coin.puzzle_hash = 77, coin.amount = 1000\<rparr>"

definition spendA :: "sexp coin_spend" where
  "spendA =
     \<lparr>coin = coinA, puzzle_reveal = AtomInt 1,
      solution = SList [SList [Atom32 1000, AtomInt 1000]]\<rparr>"

definition bundleA :: "(sexp, int) spend_bundle" where
  "bundleA = \<lparr>coin_spends = [spendA], aggregated_signature = 11\<rparr>"

definition paymentA :: notarized_payment where
  "paymentA = \<lparr>payment.puzzle_hash = 21, payment.amount = 500, memos = [], nonce = 3\<rparr>"

definition offerA :: "(sexp, int) offer" where
  "offerA = \<lparr>requested_payments = [(Some 9, [paymentA])], bundle = bundleA\<rparr>"

text \<open>A bundle that spends nothing, and a dictionary that requests the same payment twice.\<close>

definition bundle_empty :: "(sexp, int) spend_bundle" where
  "bundle_empty = \<lparr>coin_spends = [], aggregated_signature = 0\<rparr>"

definition requested_twice :: "(asset_key, notarized_payment list) dict" where
  "requested_twice = [(None, [paymentA, paymentA])]"

text \<open>A second coin, and a heap whose dictionary 0 requests one payment of the native asset.\<close>

definition coinD :: coin where
  "coinD = \<lparr>parent_coin_info = 6, coin.puzzle_hash = 78, coin.amount = 500\<rparr>"

definition requested_heap :: "nat \<Rightarrow> payments_dict" where
  "requested_heap =
     (\<lambda>r. [])(0 := [(None, Inl [\<lparr>payment.puzzle_hash = 21, payment.amount = 700, memos = []\<rparr>])])"

subsection \<open>Notions used by the properties\<close>

text \<open>
  The asset under which \<open>get_offered_coins\<close> files an addition, if it files it: the one of
  its parent spend, when its puzzle hash is the settlement puzzle hash of that asset.
  \<open>has_parent\<close> holds when the lookup of the parent spend finds one.
\<close>

definition settled_asset :: "'p collaborators \<Rightarrow> 'p coin_spend list \<Rightarrow> coin \<Rightarrow> asset_key option" where
  "settled_asset env spends addition =
     (case parent_spend env spends (parent_coin_info addition) of
        Inl e \<Rightarrow> None
      | Inr parent \<Rightarrow>
          (let tail_hash = asset_of_puzzle env (puzzle_reveal parent)
           in if coin.puzzle_hash addition = tree_hash env (settlement_puzzle env tail_hash)
              then Some tail_hash else None))"

definition has_parent :: "'p collaborators \<Rightarrow> 'p coin_spend list \<Rightarrow> coin \<Rightarrow> bool" where
  "has_parent env spends addition =
     (filter (\<lambda>cs. coin_name env (coin cs) = parent_coin_info addition) spends \<noteq> [])"


text \<open>
  Offer C offers the native coin of 1000 and requests 700 of the native asset. Offer Z
  offers the same coin and requests, under the token with tail 9, one payment of amount 0.
\<close>

definition paymentC :: notarized_payment where
  "paymentC = \<lparr>payment.puzzle_hash = 21, payment.amount = 700, memos = [], nonce = 3\<rparr>"

definition offerC :: "(sexp, int) offer" where
  "offerC = \<lparr>requested_payments = [(None, [paymentC])], bundle = bundleA\<rparr>"

definition paymentZ :: notarized_payment where
  "paymentZ = \<lparr>payment.puzzle_hash = 21, payment.amount = 0, memos = [], nonce = 3\<rparr>"

definition offerZ :: "(sexp, int) offer" where
  "offerZ = \<lparr>requested_payments = [(Some 9, [paymentZ])], bundle = bundleA\<rparr>"


subsection \<open>Laws of the collaborators\<close>

text \<open>
  What the round trip of an offer needs of the collaborators: \<open>Program.to\<close> of a list is
  the list of the programs of its elements, as \<open>as_iter\<close> reads it back, and leaves a program
  as it is; a 32-byte atom is read back by \<open>bytes32\<close>; \<open>Payment.from_condition\<close> reads the
  three fields of a payment from the condition of its notarized form, skipping the first
  element. \<open>match_cat_puzzle\<close> recovers the tail from the CAT puzzle that \<open>construct_cat_puzzle\<close>
  builds around the settlement puzzle, and does not match the settlement puzzle itself. The
  byte codec of bundles decodes what it encodes.
\<close>

definition program_laws :: "'p collaborators \<Rightarrow> bool" where
  "program_laws env \<longleftrightarrow>
     (\<forall>xs. as_iter env (program_to env (PyList xs)) = map (program_to env) xs)
     \<and> (\<forall>p. program_to env (PyProgram p) = p)
     \<and> (\<forall>h. as_bytes32 env (program_to env (PyBytes32 h)) = Some h)
     \<and> (\<forall>np. payment_from_condition env (as_condition env np) =
               Some \<lparr>payment.puzzle_hash = payment.puzzle_hash np,
                     payment.amount = payment.amount np, memos = memos np\<rparr>)"

definition cat_laws :: "'p collaborators \<Rightarrow> bool" where
  "cat_laws env \<longleftrightarrow>
     (\<forall>tail. \<exists>m inner.
        match_cat_puzzle env (construct_cat_puzzle env (CAT_MOD env) tail (OFFER_MOD env))
          = Some (m, tail, inner))
     \<and> match_cat_puzzle env (OFFER_MOD env) = None"

definition codec_laws :: "('p, 's, 'w) codec \<Rightarrow> bool" where
  "codec_laws cd \<longleftrightarrow> (\<forall>b. spend_bundle_from_bytes cd (spend_bundle_bytes cd b) = Some b)"

text \<open>
  A codec for the implementation above, whose wire strings are the bundles themselves, and
  an offer whose only spend has a coin with the all-zero parent id.
\<close>

definition sexp_codec :: "(sexp, int, (sexp, int) spend_bundle) codec" where
  "sexp_codec = \<lparr>spend_bundle_bytes = (\<lambda>b. b), spend_bundle_from_bytes = Some\<rparr>"

definition spendS :: "sexp coin_spend" where
  "spendS =
     \<lparr>coin = \<lparr>parent_coin_info = ZERO_32, coin.puzzle_hash = 77, coin.amount = 1000\<rparr>,
      puzzle_reveal = AtomInt 1,
      solution = SList [SList [Atom32 1000, AtomInt 1000]]\<rparr>"

definition offerS :: "(sexp, int) offer" where
  "offerS =
     \<lparr>requested_payments = [],
      bundle = \<lparr>coin_spends = [spendS], aggregated_signature = 11\<rparr>\<rparr>"

subsection \<open>Notions used by the properties of aggregation\<close>

text \<open>
  The input coins of an offer object are the coins its bundle spends. A list of offers
  overlaps when some coin is an input of two offers at different positions. \<open>list_at\<close> reads
  the payment list an offer holds under a key (empty when the key is absent), and
  \<open>requested_concat\<close> is the concatenation, in input order, of the lists the offers hold under
  a key. The payment lists of the offers are separate when every dictionary has distinct
  keys and no list object is held twice, within an offer or across offers. \<open>overlaps\<close> is the
  check as the loop makes it, against the coins seen so far.
\<close>

definition input_coins :: "('p, 's) offer_object \<Rightarrow> coin set" where
  "input_coins obj = set (map coin (coin_spends (object_bundle obj)))"

definition overlapping :: "('p, 's) offer_object list \<Rightarrow> bool" where
  "overlapping offers \<longleftrightarrow>
     (\<exists>i j. i < j \<and> j < length offers
        \<and> input_coins (offers ! i) \<inter> input_coins (offers ! j) \<noteq> {})"

definition list_at :: "list_heap \<Rightarrow> (asset_key, nat) dict \<Rightarrow> asset_key \<Rightarrow> notarized_payment list" where
  "list_at heap d k = (case map_of d k of Some r \<Rightarrow> heap r | None \<Rightarrow> [])"

definition requested_concat ::
  "list_heap \<Rightarrow> ('p, 's) offer_object list \<Rightarrow> asset_key \<Rightarrow> notarized_payment list" where
  "requested_concat heap offers k = concat (map (\<lambda>obj. list_at heap (payment_lists obj) k) offers)"

definition separate_lists :: "('p, 's) offer_object list \<Rightarrow> bool" where
  "separate_lists offers \<longleftrightarrow>
     list_all (\<lambda>obj. distinct (map fst (payment_lists obj))) offers
     \<and> distinct (concat (map (\<lambda>obj. map snd (payment_lists obj)) offers))"

fun overlaps :: "coin set \<Rightarrow> ('p, 's) offer_object list \<Rightarrow> bool" where
  "overlaps seen [] = False"
| "overlaps seen (obj # rest) =
     (seen \<inter> input_coins obj \<noteq> {} \<or> overlaps (seen \<union> input_coins obj) rest)"

text \<open>
  Offer D spends the second coin into the settlement puzzle. The heap holds the payment
  lists of two offer objects, which both request the token with tail 9.
\<close>

definition spendD :: "sexp coin_spend" where
  "spendD =
     \<lparr>coin = coinD, puzzle_reveal = AtomInt 1,
      solution = SList [SList [Atom32 1000, AtomInt 500]]\<rparr>"

definition bundleD :: "(sexp, int) spend_bundle" where
  "bundleD = \<lparr>coin_spends = [spendD], aggregated_signature = 5\<rparr>"

definition offers_heap :: list_heap where
  "offers_heap = (\<lambda>r. [])(0 := [paymentA], 1 := [paymentC])"

definition objA :: "(sexp, int) offer_object" where
  "objA = \<lparr>payment_lists = [(Some 9, 0)], object_bundle = bundleA\<rparr>"

definition objD :: "(sexp, int) offer_object" where
  "objD = \<lparr>payment_lists = [(Some 9, 1)], object_bundle = bundleD\<rparr>"

definition objAD :: "(sexp, int) offer_object" where
  "objAD =
     \<lparr>payment_lists = [(Some 9, 0)],
      object_bundle = \<lparr>coin_spends = [spendA, spendD], aggregated_signature = 16\<rparr>\<rparr>"

subsection \<open>Totals\<close>

text \<open>
  A value fits when \<open>uint64\<close> accepts it. The offered total of an asset is the sum of the
  amounts of the additions that \<open>get_offered_coins\<close> files under it, the requested total the
  sum of the amounts of the payments requested under it (0 for an asset that is absent).
\<close>

definition fits :: "int \<Rightarrow> bool" where
  "fits v \<longleftrightarrow> 0 \<le> v \<and> v < 2 ^ 64"

definition offered_total :: "'p collaborators \<Rightarrow> ('p, 's) offer \<Rightarrow> asset_key \<Rightarrow> int" where
  "offered_total env self k =
     sum_list (map coin.amount
       (filter (\<lambda>a. settled_asset env (coin_spends (bundle self)) a = Some k)
          (additions env (bundle self))))"

definition requested_total :: "('p, 's) offer \<Rightarrow> asset_key \<Rightarrow> int" where
  "requested_total self k =
     sum_list (map payment.amount (dict_get (requested_payments self) k []))"

text \<open>
  Offers X and Y each offer a native coin of amount \<open>2 ^ 63\<close> and request nothing. Offers C
  and E offer the two sample coins and request 700 and 0 of the native asset.
\<close>

definition coinX :: coin where
  "coinX = \<lparr>parent_coin_info = 5, coin.puzzle_hash = 77, coin.amount = 9223372036854775808\<rparr>"

definition coinY :: coin where
  "coinY = \<lparr>parent_coin_info = 6, coin.puzzle_hash = 78, coin.amount = 9223372036854775808\<rparr>"

definition objX :: "(sexp, int) offer_object" where
  "objX =
     \<lparr>payment_lists = [],
      object_bundle =
        \<lparr>coin_spends =
           [\<lparr>coin = coinX, puzzle_reveal = AtomInt 1,
             solution = SList [SList [Atom32 1000, AtomInt 9223372036854775808]]\<rparr>],
         aggregated_signature = 1\<rparr>\<rparr>"

definition objY :: "(sexp, int) offer_object" where
  "objY =
     \<lparr>payment_lists = [],
      object_bundle =
        \<lparr>coin_spends =
           [\<lparr>coin = coinY, puzzle_reveal = AtomInt 1,
             solution = SList [SList [Atom32 1000, AtomInt 9223372036854775808]]\<rparr>],
         aggregated_signature = 2\<rparr>\<rparr>"

definition objXY :: "(sexp, int) offer_object" where
  "objXY =
     \<lparr>payment_lists = [],
      object_bundle =
        \<lparr>coin_spends = coin_spends (object_bundle objX) @ coin_spends (object_bundle objY),
         aggregated_signature = 3\<rparr>\<rparr>"

definition valid_heap :: list_heap where
  "valid_heap = (\<lambda>r. [])(0 := [paymentC], 1 := [paymentZ])"

definition objC :: "(sexp, int) offer_object" where
  "objC = \<lparr>payment_lists = [(None, 0)], object_bundle = bundleA\<rparr>"

definition objE :: "(sexp, int) offer_object" where
  "objE = \<lparr>payment_lists = [(None, 1)], object_bundle = bundleD\<rparr>"

definition objCE :: "(sexp, int) offer_object" where
  "objCE =
     \<lparr>payment_lists = [(None, 0)],
      object_bundle = \<lparr>coin_spends = [spendA, spendD], aggregated_signature = 16\<rparr>\<rparr>"

text \<open>
  Offers P and Q share a list object: P holds it under the native asset, Q under the token
  with tail 9. Q spends a token coin and a native coin.
\<close>

definition paymentP :: notarized_payment where
  "paymentP = \<lparr>payment.puzzle_hash = 21, payment.amount = 500, memos = [], nonce = 3\<rparr>"

definition paymentQ :: notarized_payment where
  "paymentQ = \<lparr>payment.puzzle_hash = 22, payment.amount = 100, memos = [], nonce = 4\<rparr>"

definition shared_heap :: list_heap where
  "shared_heap = (\<lambda>r. [])(0 := [paymentP], 1 := [paymentQ])"

definition objP :: "(sexp, int) offer_object" where
  "objP = \<lparr>payment_lists = [(None, 0)], object_bundle = bundleA\<rparr>"

definition objQ :: "(sexp, int) offer_object" where
  "objQ =
     \<lparr>payment_lists = [(Some 9, 0), (None, 1)],
      object_bundle =
        \<lparr>coin_spends =
           [\<lparr>coin = coinD, puzzle_reveal = Curry CatModule 9 (AtomInt 2),
             solution = SList [SList [Atom32 2009, AtomInt 500]]\<rparr>,
            \<lparr>coin = \<lparr>parent_coin_info = 8, coin.puzzle_hash = 79, coin.amount = 100\<rparr>,
             puzzle_reveal = AtomInt 1,
             solution = SList [SList [Atom32 1000, AtomInt 100]]\<rparr>],
         aggregated_signature = 7\<rparr>\<rparr>"

definition objPQ :: "(sexp, int) offer_object" where
  "objPQ =
     \<lparr>payment_lists = [(None, 0), (Some 9, 0)],
      object_bundle =
        \<lparr>coin_spends = coin_spends bundleA @ coin_spends (object_bundle objQ),
         aggregated_signature = 18\<rparr>\<rparr>"

section \<open>Properties of the analyzer\<close>

lemmas sample_defs = offerA_def bundleA_def spendA_def coinA_def paymentA_def
  bundle_empty_def requested_twice_def

lemmas sexp_run = sexp_env_def sexp_coin_name_def get_offered_amounts_def get_offered_coins_def
  get_requested_amounts_def additions_def parent_spend_def asset_of_puzzle_def
  settlement_puzzle_def uint64_def

lemma map_of_fold_update:
  "map_of (fold (\<lambda>k d. AList.update k (f k) d) ks acc) k =
     (if k \<in> set ks then Some (f k) else map_of acc k)"
  by (induction ks arbitrary: acc) (auto simp: update_conv')

lemma keys_fold_update:
  "fst ` set (fold (\<lambda>k d. AList.update k (f k) d) ks acc) = set ks \<union> fst ` set acc"
  by (induction ks arbitrary: acc) (auto simp: dom_update)

lemma distinct_fold_update:
  "distinct (map fst acc) \<Longrightarrow> distinct (map fst (fold (\<lambda>k d. AList.update k (f k) d) ks acc))"
  by (induction ks arbitrary: acc) (auto simp: distinct_update)

text \<open>
  Claim C2. Whenever the two amount views of an offer return, \<open>arbitrage\<close> returns a
  dictionary whose keys are exactly the asset keys of either view, each mapped to the offered
  amount (0 when the key is not offered) minus the requested amount (0 when it is not
  requested), as a signed integer; and \<open>is_valid\<close> returns true exactly when every value of
  that dictionary is at least 0.
\<close>

theorem arbitrage_offered_minus_requested:
  assumes off: "get_offered_amounts env self = Inr offered"
    and req: "get_requested_amounts self = Inr requested"
  shows "\<exists>arb. arbitrage env self = Inr arb \<and> distinct (map fst arb)
           \<and> fst ` set arb = fst ` set offered \<union> fst ` set requested
           \<and> (\<forall>k \<in> fst ` set arb.
                 map_of arb k = Some (dict_get offered k 0 - dict_get requested k 0))
           \<and> is_valid env self = Inr (\<forall>v \<in> snd ` set arb. 0 \<le> v)"
proof -
  let ?f = "\<lambda>k. dict_get offered k 0 - dict_get requested k 0"
  let ?arb = "fold (\<lambda>k d. AList.update k (?f k) d) (map fst requested @ map fst offered) []"
  have a: "arbitrage env self = Inr ?arb"
    by (simp add: arbitrage_def off req)
  have d: "distinct (map fst ?arb)"
    by (rule distinct_fold_update) simp
  have k: "fst ` set ?arb = fst ` set offered \<union> fst ` set requested"
    by (simp only: keys_fold_update) auto
  have m: "\<forall>k \<in> fst ` set ?arb. map_of ?arb k = Some (?f k)"
    by (simp only: keys_fold_update map_of_fold_update) auto
  have v: "is_valid env self = Inr (\<forall>v \<in> snd ` set ?arb. 0 \<le> v)"
    by (simp add: is_valid_def a list_all_iff)
  from a d k m v show ?thesis by blast
qed

theorem arbitrage_offered_minus_requested_witness:
  "get_offered_amounts sexp_env offerA = Inr [(None, 1000)]
     \<and> get_requested_amounts offerA = Inr [(Some 9, 500)]
     \<and> arbitrage sexp_env offerA = Inr [(Some 9, - 500), (None, 1000)]
     \<and> is_valid sexp_env offerA = Inr False"
proof -
  have off: "get_offered_amounts sexp_env offerA = Inr [(None, 1000)]"
    by (simp add: sample_defs sexp_run)
  have req: "get_requested_amounts offerA = Inr [(Some 9, 500)]"
    by (simp add: sample_defs sexp_run)
  have arb: "arbitrage sexp_env offerA = Inr [(Some 9, - 500), (None, 1000)]"
    by (simp add: arbitrage_def off req dict_get_def)
  from arbitrage_offered_minus_requested [OF off req] arb
  have "is_valid sexp_env offerA = Inr False"
    by auto
  with off req arb show ?thesis by simp
qed

subsection \<open>Construction-time validation\<close>

lemma offered_loop_total:
  "list_all (\<lambda>a. filter (\<lambda>cs. coin_name env (coin cs) = parent_coin_info a) spends \<noteq> []) adds
     \<Longrightarrow> \<exists>oc. offered_loop env spends adds acc = Inr oc"
proof (induction adds arbitrary: acc)
  case Nil
  then show ?case by simp
next
  case (Cons a adds)
  then obtain cs rest where f: "filter (\<lambda>cs. coin_name env (coin cs) = parent_coin_info a) spends = cs # rest"
    by (cases "filter (\<lambda>cs. coin_name env (coin cs) = parent_coin_info a) spends") auto
  from Cons show ?case
    by (auto simp: parent_spend_def f Let_def split: option.splits)
qed

lemma card_set_neq_length: "card (set xs) \<noteq> length xs \<longleftrightarrow> \<not> distinct xs"
  using card_distinct distinct_card by metis

lemma card_image_neq_length: "card (f ` set xs) \<noteq> length xs \<longleftrightarrow> \<not> distinct (map f xs)"
  using card_set_neq_length [of "map f xs"] by simp

lemma post_init_cases:
  "post_init env self =
     (case get_offered_coins env self of
        Inl e \<Rightarrow> Inl e
      | Inr oc \<Rightarrow>
          if oc = [] then Inl EmptyOffer
          else if duplicate_payment env (requested_payments self) then Inl DuplicatePayment
          else Inr ())"
  by (simp add: post_init_def duplicate_payment_def Let_def card_image_neq_length
        split: sum.splits)

text \<open>
  Claim C3, as the constructor behaves. Over a well-formed bundle \<open>get_offered_coins\<close>
  returns, and the constructor fails with \<open>EmptyOffer\<close> exactly when nothing is offered,
  fails with \<open>DuplicatePayment\<close> exactly when something is offered and some list of requested
  payments holds two payments of the same name, and returns the offer of the two arguments
  in every other case: it checks nothing else. The first check comes first, so an offer
  that offers nothing and requests a payment twice fails with \<open>EmptyOffer\<close>.
\<close>

theorem Offer_construction:
  assumes wf: "well_formed_bundle env b"
  shows "\<exists>oc. get_offered_coins env \<lparr>requested_payments = rp, bundle = b\<rparr> = Inr oc
           \<and> (Offer env rp b = Inl EmptyOffer \<longleftrightarrow> oc = [])
           \<and> (Offer env rp b = Inl DuplicatePayment \<longleftrightarrow> oc \<noteq> [] \<and> duplicate_payment env rp)
           \<and> (Offer env rp b = Inr \<lparr>requested_payments = rp, bundle = b\<rparr>
                \<longleftrightarrow> oc \<noteq> [] \<and> \<not> duplicate_payment env rp)"
proof -
  from wf have "list_all (\<lambda>a. filter (\<lambda>cs. coin_name env (coin cs) = parent_coin_info a) (coin_spends b) \<noteq> [])
                  (additions env b)"
    by (auto simp: well_formed_bundle_def list_all_iff)
  then obtain oc where oc: "offered_loop env (coin_spends b) (additions env b) [] = Inr oc"
    using offered_loop_total by blast
  then have g: "get_offered_coins env \<lparr>requested_payments = rp, bundle = b\<rparr> = Inr oc"
    by (simp add: get_offered_coins_def)
  show ?thesis
    by (rule exI [of _ oc]) (simp add: g Offer_def post_init_cases Let_def)
qed

theorem Offer_construction_witness:
  "well_formed_bundle sexp_env bundleA
     \<and> Offer sexp_env [(Some 9, [paymentA])] bundleA =
         Inr \<lparr>requested_payments = [(Some 9, [paymentA])], bundle = bundleA\<rparr>"
proof -
  have wf: "well_formed_bundle sexp_env bundleA"
    by (simp add: well_formed_bundle_def sample_defs sexp_run)
  have oc: "get_offered_coins sexp_env \<lparr>requested_payments = [(Some 9, [paymentA])], bundle = bundleA\<rparr>
              = Inr [(None, [\<lparr>parent_coin_info = 1267, coin.puzzle_hash = 1000, coin.amount = 1000\<rparr>])]"
    by (simp add: sample_defs sexp_run)
  have nd: "\<not> duplicate_payment sexp_env [(Some 9, [paymentA])]"
    by (simp add: duplicate_payment_def)
  from Offer_construction [OF wf, of "[(Some 9, [paymentA])]"] oc nd
  have "Offer sexp_env [(Some 9, [paymentA])] bundleA =
          Inr \<lparr>requested_payments = [(Some 9, [paymentA])], bundle = bundleA\<rparr>"
    by auto
  with wf show ?thesis by simp
qed

text \<open>
  The claim as stated gives \<open>DuplicatePayment\<close> whenever two payments share a name: over the
  empty bundle the constructor fails with \<open>EmptyOffer\<close> instead.
\<close>

theorem Offer_duplicate_counterexample:
  "well_formed_bundle sexp_env bundle_empty
     \<and> duplicate_payment sexp_env requested_twice
     \<and> Offer sexp_env requested_twice bundle_empty = Inl EmptyOffer
     \<and> Offer sexp_env requested_twice bundle_empty \<noteq> Inl DuplicatePayment"
  by (simp add: well_formed_bundle_def duplicate_payment_def Offer_def post_init_def
        sample_defs sexp_run)

section \<open>Properties of the builder\<close>

lemma update_middle:
  "k \<notin> fst ` set xs \<Longrightarrow> AList.update k v (xs @ (k, v') # ys) = xs @ (k, v) # ys"
  by (induction xs) auto

lemma fold_update_values:
  "distinct (map fst (pre @ suf)) \<Longrightarrow>
     fold (\<lambda>(k, v) d. AList.update k (f v) d) suf (map (\<lambda>(k, v). (k, f v)) pre @ suf)
       = map (\<lambda>(k, v). (k, f v)) (pre @ suf)"
proof (induction suf arbitrary: pre)
  case Nil
  then show ?case by simp
next
  case (Cons kv suf)
  obtain k v where kv: "kv = (k, v)" by (cases kv)
  from Cons.prems have notin: "k \<notin> fst ` set (map (\<lambda>(k, v). (k, f v)) pre)"
    by (force simp: kv)
  from Cons.prems have d: "distinct (map fst ((pre @ [(k, v)]) @ suf))"
    by (simp add: kv)
  have "fold (\<lambda>(k, v) d. AList.update k (f v) d) (kv # suf) (map (\<lambda>(k, v). (k, f v)) pre @ kv # suf)
          = fold (\<lambda>(k, v) d. AList.update k (f v) d) suf
              (map (\<lambda>(k, v). (k, f v)) (pre @ [(k, v)]) @ suf)"
    by (simp add: kv update_middle [OF notin])
  also have "\<dots> = map (\<lambda>(k, v). (k, f v)) ((pre @ [(k, v)]) @ suf)"
    by (rule Cons.IH [OF d])
  finally show ?case by (simp add: kv)
qed

lemma notarize_payments_dict:
  assumes "distinct (map fst (heap r))"
  shows "notarize_payments env heap r coins =
           (heap(r := map (\<lambda>(k, v). (k, Inr (notarized (notarize_nonce env coins) v))) (heap r)), r)"
  using fold_update_values [of "[]" "heap r" "\<lambda>v. Inr (notarized (notarize_nonce env coins) v)"] assms
  by (simp add: notarize_payments_def Let_def)

text \<open>
  Claim C9. \<open>notarize_payments\<close> writes into the dictionary it is given and returns that
  same dictionary: the reference returned is the reference passed, the keys and their order
  stay, every slot that held a list of payments holds the list of their notarized forms
  afterwards, no slot holds a list of un-notarized payments any more, and no other object
  of the heap changes.
\<close>

theorem notarize_payments_in_place:
  assumes d: "distinct (map fst (heap r))"
    and res: "notarize_payments env heap r coins = (heap', r')"
  shows "r' = r
           \<and> map fst (heap' r) = map fst (heap r)
           \<and> (\<forall>k ps. map_of (heap r) k = Some (Inl ps) \<longrightarrow>
                 map_of (heap' r) k
                   = Some (Inr (map (\<lambda>p. NotarizedPayment p (notarize_nonce env coins)) ps)))
           \<and> (\<forall>k ps. map_of (heap' r) k \<noteq> Some (Inl ps))
           \<and> (\<forall>q. q \<noteq> r \<longrightarrow> heap' q = heap q)"
proof -
  let ?g = "\<lambda>v. (Inr (notarized (notarize_nonce env coins) v) :: payment list + notarized_payment list)"
  from res notarize_payments_dict [of heap r env coins] d
  have r: "r' = r" and h: "heap' = heap(r := map (\<lambda>(k, v). (k, ?g v)) (heap r))"
    by auto
  have m: "map_of (heap' r) k = map_option ?g (map_of (heap r) k)" for k
    by (simp add: h map_of_map)
  show ?thesis
    using r by (auto simp: m notarized_def) (simp_all add: h comp_def split_def)
qed

theorem notarize_payments_in_place_witness:
  "distinct (map fst (requested_heap 0))
     \<and> snd (notarize_payments sexp_env requested_heap 0 [coinA]) = 0
     \<and> map_of (fst (notarize_payments sexp_env requested_heap 0 [coinA]) 0) None =
         Some (Inr [\<lparr>payment.puzzle_hash = 21, payment.amount = 700, memos = [],
                     nonce = notarize_nonce sexp_env [coinA]\<rparr>])"
proof -
  have d: "distinct (map fst (requested_heap 0))"
    by (simp add: requested_heap_def)
  have old: "map_of (requested_heap 0) None =
               Some (Inl [\<lparr>payment.puzzle_hash = 21, payment.amount = 700, memos = []\<rparr>])"
    by (simp add: requested_heap_def)
  have res: "notarize_payments sexp_env requested_heap 0 [coinA] =
               (fst (notarize_payments sexp_env requested_heap 0 [coinA]),
                snd (notarize_payments sexp_env requested_heap 0 [coinA]))"
    by simp
  from notarize_payments_in_place [where heap = requested_heap and r = 0, OF d res] old
  show ?thesis
    using d by (simp add: NotarizedPayment_def)
qed

subsection \<open>The nonce\<close>

lemma filter_eq_replicate: "filter (\<lambda>x. k = x) zs = replicate (count (mset zs) k) k"
  by (induction zs) auto

lemma filter_key_inj:
  assumes "inj_on f (set zs)" and "k \<in> set zs"
  shows "filter (\<lambda>x. f k = f x) zs = replicate (count (mset zs) k) k"
proof -
  have "filter (\<lambda>x. f k = f x) zs = filter (\<lambda>x. k = x) zs"
    using assms by (intro filter_cong) (auto dest: inj_onD)
  then show ?thesis by (simp add: filter_eq_replicate)
qed

lemma sort_key_unique:
  assumes inj: "inj_on f (set xs)" and m: "mset ys = mset xs" and s: "sorted (map f ys)"
  shows "sort_key f xs = ys"
proof (rule properties_for_sort_key [OF m _ s])
  fix k assume k: "k \<in> set ys"
  from m have se: "set ys = set xs" by (rule mset_eq_setD)
  from filter_key_inj [of f ys k] filter_key_inj [of f xs k] inj k se m
  show "filter (\<lambda>x. f k = f x) ys = filter (\<lambda>x. f k = f x) xs"
    by simp
qed

lemma notarize_nonce_sorted:
  assumes "inj_on (coin_name env) (set coins)" and "mset ys = mset coins"
    and "sorted (map (coin_name env) ys)"
  shows "notarize_nonce env coins = tree_hash env (program_to env (PyList (map (coin_as_list env) ys)))"
  using sort_key_unique [OF assms] by (simp add: notarize_nonce_def)

lemma notarized_nonce: "np \<in> set (notarized n v) \<Longrightarrow> nonce np = n"
  by (auto simp: notarized_def NotarizedPayment_def split: sum.splits)

lemma notarize_payments_nonce:
  assumes d: "distinct (map fst (heap r))"
    and m: "map_of (fst (notarize_payments env heap r coins) r) k = Some v"
  shows "\<exists>nps. v = Inr nps \<and> (\<forall>np \<in> set nps. nonce np = notarize_nonce env coins)"
proof -
  from m have "map_option (\<lambda>v. Inr (notarized (notarize_nonce env coins) v)) (map_of (heap r) k) = Some v"
    by (simp add: notarize_payments_dict [where heap = heap and r = r, OF d] map_of_map)
  then show ?thesis by (auto simp: notarized_nonce)
qed

text \<open>
  Claim C7, for coin lists that are permutations of each other. When the names of the coins
  are free of collisions and \<open>C2\<close> holds the coins of \<open>C1\<close> in another order, both calls
  derive the same nonce; it is the tree hash of the program of the list forms of the coins
  in any order \<open>ys\<close> that is sorted by name; and every payment in the dictionary that either
  call leaves carries it.
\<close>

theorem notarize_nonce_deterministic:
  assumes inj: "inj_on (coin_name env) (set C1)" and perm: "mset C2 = mset C1"
    and ys: "mset ys = mset C1" "sorted (map (coin_name env) ys)"
    and d: "distinct (map fst (heap r))"
  shows "notarize_nonce env C1 = notarize_nonce env C2
           \<and> notarize_nonce env C1 =
               tree_hash env (program_to env (PyList (map (coin_as_list env) ys)))
           \<and> (\<forall>k v. map_of (fst (notarize_payments env heap r C1) r) k = Some v \<longrightarrow>
                 (\<exists>nps. v = Inr nps \<and> (\<forall>np \<in> set nps. nonce np = notarize_nonce env C1)))
           \<and> (\<forall>k v. map_of (fst (notarize_payments env heap r C2) r) k = Some v \<longrightarrow>
                 (\<exists>nps. v = Inr nps \<and> (\<forall>np \<in> set nps. nonce np = notarize_nonce env C1)))"
proof -
  have n1: "notarize_nonce env C1 = tree_hash env (program_to env (PyList (map (coin_as_list env) ys)))"
    by (rule notarize_nonce_sorted [OF inj ys])
  from perm have "set C2 = set C1" by (rule mset_eq_setD)
  with inj have inj2: "inj_on (coin_name env) (set C2)" by simp
  from ys perm have ys2: "mset ys = mset C2" by simp
  have n2: "notarize_nonce env C2 = tree_hash env (program_to env (PyList (map (coin_as_list env) ys)))"
    by (rule notarize_nonce_sorted [OF inj2 ys2 ys(2)])
  from n1 n2 have e: "notarize_nonce env C2 = notarize_nonce env C1" by simp
  show ?thesis
    using n1 e notarize_payments_nonce [where heap = heap and r = r and env = env and coins = C1, OF d]
      notarize_payments_nonce [where heap = heap and r = r and env = env and coins = C2, OF d]
    by (metis (no_types, lifting))
qed

theorem notarize_nonce_deterministic_witness:
  "inj_on (coin_name sexp_env) (set [coinA, coinD])
     \<and> mset [coinD, coinA] = mset [coinA, coinD]
     \<and> sorted (map (coin_name sexp_env) [coinD, coinA])
     \<and> notarize_nonce sexp_env [coinA, coinD] = notarize_nonce sexp_env [coinD, coinA]
     \<and> notarize_nonce sexp_env [coinA, coinD] =
         tree_hash sexp_env
           (program_to sexp_env (PyList (map (coin_as_list sexp_env) [coinD, coinA])))"
proof -
  have inj: "inj_on (coin_name sexp_env) (set [coinA, coinD])"
    by (simp add: sexp_env_def coinD_def coinA_def sexp_coin_name_def)
  have perm: "mset [coinD, coinA] = mset [coinA, coinD]"
    by (simp add: add_mset_commute)
  have srt: "sorted (map (coin_name sexp_env) [coinD, coinA])"
    by (simp add: sexp_env_def coinD_def coinA_def sexp_coin_name_def)
  have d: "distinct (map fst (requested_heap 0))"
    by (simp add: requested_heap_def)
  from notarize_nonce_deterministic
         [where heap = requested_heap and r = 0, OF inj perm perm srt d]
  have "notarize_nonce sexp_env [coinA, coinD] = notarize_nonce sexp_env [coinD, coinA]
          \<and> notarize_nonce sexp_env [coinA, coinD] =
              tree_hash sexp_env
                (program_to sexp_env (PyList (map (coin_as_list sexp_env) [coinD, coinA])))"
    by blast
  with inj perm srt show ?thesis by blast
qed

text \<open>
  Two lists that are equal only as sets need not give the same nonce: the list is sorted,
  not deduplicated, so a coin listed twice is hashed twice.
\<close>

theorem notarize_nonce_duplicate_counterexample:
  "set [coinA] = set [coinA, coinA]
     \<and> notarize_nonce sexp_env [coinA] \<noteq> notarize_nonce sexp_env [coinA, coinA]"
  by (simp add: notarize_nonce_def sexp_env_def coinA_def)

section \<open>Properties of the offered coins\<close>

lemma parent_spend_cases:
  "parent_spend env spends p = Inl e \<Longrightarrow> e = IndexError"
  by (auto simp: parent_spend_def split: list.splits)

lemma has_parent_iff: "has_parent env spends a \<longleftrightarrow> (\<exists>cs. parent_spend env spends (parent_coin_info a) = Inr cs)"
  by (auto simp: has_parent_def parent_spend_def split: list.splits)

lemma update_fresh: "k \<notin> fst ` set acc \<Longrightarrow> AList.update k v acc = acc @ [(k, v)]"
  by (induction acc) auto

lemma offered_loop_step:
  "offered_loop env spends (a # adds) acc =
     (if \<not> has_parent env spends a then Inl IndexError
      else case settled_asset env spends a of
             None \<Rightarrow> offered_loop env spends adds acc
           | Some k \<Rightarrow>
               offered_loop env spends adds
                 (AList.update k (dict_get acc k [] @ [a]) acc))"
  by (auto simp: has_parent_def settled_asset_def parent_spend_def dict_get_def Let_def
        split: list.splits option.splits)

declare offered_loop.simps(2) [simp del]

lemma offered_loop_parents:
  "offered_loop env spends adds acc = Inr d \<Longrightarrow> list_all (has_parent env spends) adds"
proof (induction adds arbitrary: acc)
  case Nil
  then show ?case by simp
next
  case (Cons a adds)
  then show ?case
    by (auto simp: offered_loop_step split: if_splits option.splits)
qed

lemma offered_loop_map_of:
  "offered_loop env spends adds acc = Inr d \<Longrightarrow>
     map_of d k =
       (let xs = filter (\<lambda>a. settled_asset env spends a = Some k) adds
        in case map_of acc k of
             None \<Rightarrow> if xs = [] then None else Some xs
           | Some ys \<Rightarrow> Some (ys @ xs))"
proof (induction adds arbitrary: acc)
  case Nil
  then show ?case by (auto split: option.splits)
next
  case (Cons a adds)
  show ?case
  proof (cases "settled_asset env spends a")
    case None
    with Cons.prems have "offered_loop env spends adds acc = Inr d"
      by (simp add: offered_loop_step split: if_splits)
    from Cons.IH [OF this] None show ?thesis by simp
  next
    case (Some k')
    with Cons.prems have
      "offered_loop env spends adds (AList.update k' (dict_get acc k' [] @ [a]) acc) = Inr d"
      by (simp add: offered_loop_step split: if_splits)
    from Cons.IH [OF this] Some show ?thesis
      by (auto simp: update_conv' dict_get_def Let_def split: option.splits)
  qed
qed

lemma offered_loop_distinct:
  "offered_loop env spends adds acc = Inr d \<Longrightarrow> distinct (map fst acc) \<Longrightarrow> distinct (map fst d)"
proof (induction adds arbitrary: acc)
  case Nil
  then show ?case by simp
next
  case (Cons a adds)
  then show ?case
    by (auto simp: offered_loop_step distinct_update split: if_splits option.splits)
qed

lemma get_offered_coins_map_of:
  assumes "get_offered_coins env self = Inr oc"
  shows "map_of oc k =
           (let xs = filter (\<lambda>a. settled_asset env (coin_spends (bundle self)) a = Some k)
                       (additions env (bundle self))
            in if xs = [] then None else Some xs)"
  using offered_loop_map_of [of env "coin_spends (bundle self)" "additions env (bundle self)" "[]" oc k]
    assms
  by (simp add: get_offered_coins_def)

lemma get_offered_coins_distinct:
  "get_offered_coins env self = Inr oc \<Longrightarrow> distinct (map fst oc)"
  using offered_loop_distinct [of env _ _ "[]" oc] by (simp add: get_offered_coins_def)

lemma get_offered_coins_settled:
  assumes "get_offered_coins env self = Inr oc" and "map_of oc k = Some coins" and "c \<in> set coins"
  shows "settled_asset env (coin_spends (bundle self)) c = Some k"
  using assms(2,3) get_offered_coins_map_of [OF assms(1), of k]
  by (auto simp: Let_def split: if_splits)

section \<open>Properties of completion\<close>

lemma traverse_total:
  "(\<And>x. x \<in> set xs \<Longrightarrow> \<exists>y. f x = Inr y) \<Longrightarrow> \<exists>ys. traverse f xs = Inr ys"
proof (induction xs)
  case Nil
  then show ?case by simp
next
  case (Cons x xs)
  then obtain y ys where "f x = Inr y" "traverse f xs = Inr ys"
    by (metis list.set_intros)
  then show ?case by simp
qed

lemma amounts_loop_keys:
  "amounts_loop xs acc = Inr d \<Longrightarrow> fst ` set d = fst ` set xs \<union> fst ` set acc"
proof (induction xs arbitrary: acc)
  case Nil
  then show ?case by simp
next
  case (Cons x xs)
  obtain k amts where x: "x = (k, amts)" by (cases x)
  from Cons.prems obtain v where "amounts_loop xs (AList.update k v acc) = Inr d"
    by (auto simp: x split: sum.splits)
  from Cons.IH [OF this] show ?case
    by (auto simp: x dom_update)
qed

lemma is_valid_views:
  assumes "is_valid env self = Inr b"
  obtains arb off req where "arbitrage env self = Inr arb"
    and "get_offered_amounts env self = Inr off" and "get_requested_amounts self = Inr req"
  using assms by (auto simp: is_valid_def arbitrage_def split: sum.splits)

lemma arbitrage_keys:
  assumes "arbitrage env self = Inr arb"
  shows "fst ` set (requested_payments self) \<subseteq> fst ` set arb"
proof -
  from assms obtain off req where off: "get_offered_amounts env self = Inr off"
    and req: "get_requested_amounts self = Inr req"
    and arb: "arb = fold (\<lambda>k d. AList.update k (dict_get off k 0 - dict_get req k 0) d)
                      (map fst req @ map fst off) []"
    by (auto simp: arbitrage_def split: sum.splits)
  from req have "fst ` set req = fst ` set (requested_payments self)"
    by (auto simp: get_requested_amounts_def dest!: amounts_loop_keys) force+
  then show ?thesis
    by (simp only: arb keys_fold_update) auto
qed

lemma completion_spend_total:
  assumes "settled_asset env spends c = Some k"
  shows "\<exists>cs. completion_spend env spends k payments first c = Inr cs"
  using assms
  by (auto simp: completion_spend_def settled_asset_def asset_of_puzzle_def Let_def
        split: sum.splits option.splits if_splits)

lemma completion_spends_for_total:
  assumes goc: "get_offered_coins env self = Inr oc"
    and arb: "arbitrage env self = Inr arb"
    and item: "(k, payments) \<in> set (requested_payments self)"
    and offered: "k \<in> fst ` set oc"
  shows "\<exists>css. completion_spends_for env self arbitrage_ph (k, payments) = Inr css"
proof -
  from offered obtain coins where coins: "map_of oc k = Some coins"
    by (metis domIff dom_map_of_conv_image_fst not_Some_eq)
  from item arbitrage_keys [OF arb] have "k \<in> fst ` set arb" by force
  then obtain a where a: "map_of arb k = Some a"
    by (metis domIff dom_map_of_conv_image_fst not_Some_eq)
  show ?thesis
  proof (cases coins)
    case Nil
    then show ?thesis by (simp add: completion_spends_for_def goc arb coins a)
  next
    case (Cons first others)
    have "\<exists>css. traverse (completion_spend env (coin_spends (bundle self)) k
                   (all_payments arbitrage_ph payments a) first) coins = Inr css"
      by (rule traverse_total)
         (rule completion_spend_total, rule get_offered_coins_settled [OF goc coins])
    then show ?thesis by (simp add: completion_spends_for_def goc arb coins a Cons)
  qed
qed

lemma to_valid_spend_total:
  assumes valid: "is_valid env self = Inr True"
    and goc: "get_offered_coins env self = Inr oc"
    and keys: "fst ` set (requested_payments self) \<subseteq> fst ` set oc"
  shows "\<exists>sb. to_valid_spend env self arbitrage_ph = Inr sb"
proof -
  from valid obtain arb where arb: "arbitrage env self = Inr arb"
    by (rule is_valid_views)
  have "\<exists>css. traverse (completion_spends_for env self arbitrage_ph) (requested_payments self) = Inr css"
  proof (rule traverse_total)
    fix item assume i: "item \<in> set (requested_payments self)"
    obtain k payments where kp: "item = (k, payments)" by (cases item)
    from i keys have "k \<in> fst ` set oc" by (force simp: kp)
    from completion_spends_for_total [OF goc arb i [unfolded kp] this]
    show "\<exists>y. completion_spends_for env self arbitrage_ph item = Inr y" by (simp add: kp)
  qed
  then show ?thesis by (auto simp: to_valid_spend_def valid)
qed

lemmas sexp_eval = sexp_env_def sexp_coin_name_def get_offered_amounts_def get_offered_coins_def
  get_requested_amounts_def additions_def parent_spend_def asset_of_puzzle_def
  settlement_puzzle_def uint64_def offered_loop.simps arbitrage_def is_valid_def dict_get_def
  to_valid_spend_def completion_spends_for_def completion_spend_def all_payments_def
  inner_solution_def as_condition_def as_condition_args_def SpendBundle_aggregate_def
  Offer_def post_init_def ZERO_32_def

lemma offerZ_facts:
  "Offer sexp_env (requested_payments offerZ) (bundle offerZ) = Inr offerZ
     \<and> is_valid sexp_env offerZ = Inr True
     \<and> get_requested_amounts offerZ = Inr [(Some 9, 0)]
     \<and> get_offered_coins sexp_env offerZ
           = Inr [(None, [\<lparr>parent_coin_info = 1267, coin.puzzle_hash = 1000, coin.amount = 1000\<rparr>])]
     \<and> to_valid_spend sexp_env offerZ 99 = Inl KeyError"
  by (simp add: offerZ_def paymentZ_def sample_defs sexp_eval)

text \<open>
  Claim C10. \<open>to_valid_spend\<close> returns a bundle for every offer on which \<open>is_valid\<close> is true
  and whose requested asset keys are all keys of \<open>get_offered_coins\<close> (the tokenization
  helper being a total function). Validity alone is not enough: offer Z is accepted by the
  constructor and valid, its requested payments under the token 9 sum to 0, nothing is
  offered under that key, and \<open>to_valid_spend\<close> fails on it with \<open>KeyError\<close>, not with
  \<open>Incomplete\<close>.
\<close>

theorem to_valid_spend_completes:
  "(is_valid env self = Inr True \<longrightarrow> get_offered_coins env self = Inr oc \<longrightarrow>
      fst ` set (requested_payments self) \<subseteq> fst ` set oc \<longrightarrow>
      (\<exists>sb. to_valid_spend env self arbitrage_ph = Inr sb))
   \<and> Offer sexp_env (requested_payments offerZ) (bundle offerZ) = Inr offerZ
   \<and> is_valid sexp_env offerZ = Inr True
   \<and> get_requested_amounts offerZ = Inr [(Some 9, 0)]
   \<and> get_offered_coins sexp_env offerZ
        = Inr [(None, [\<lparr>parent_coin_info = 1267, coin.puzzle_hash = 1000, coin.amount = 1000\<rparr>])]
   \<and> to_valid_spend sexp_env offerZ 99 = Inl KeyError"
  using to_valid_spend_total [of env self oc arbitrage_ph] offerZ_facts by blast

theorem to_valid_spend_completes_witness:
  "is_valid sexp_env offerC = Inr True
     \<and> get_offered_coins sexp_env offerC
          = Inr [(None, [\<lparr>parent_coin_info = 1267, coin.puzzle_hash = 1000, coin.amount = 1000\<rparr>])]
     \<and> (\<exists>sb. to_valid_spend sexp_env offerC 99 = Inr sb)"
proof -
  have v: "is_valid sexp_env offerC = Inr True"
    by (simp add: offerC_def paymentC_def sample_defs sexp_eval)
  have g: "get_offered_coins sexp_env offerC
             = Inr [(None, [\<lparr>parent_coin_info = 1267, coin.puzzle_hash = 1000, coin.amount = 1000\<rparr>])]"
    by (simp add: offerC_def paymentC_def sample_defs sexp_eval)
  have k: "fst ` set (requested_payments offerC)
             \<subseteq> fst ` set [(None :: asset_key, [\<lparr>parent_coin_info = 1267, coin.puzzle_hash = 1000, coin.amount = 1000\<rparr>])]"
    by (simp add: offerC_def)
  from to_valid_spend_completes [of sexp_env offerC _ 99] v g k
  have "\<exists>sb. to_valid_spend sexp_env offerC 99 = Inr sb"
    by blast
  with v g show ?thesis by blast
qed





section \<open>Properties of the serialization\<close>

lemma traverse_map_inverse:
  "(\<And>x. x \<in> set xs \<Longrightarrow> f (g x) = Inr x) \<Longrightarrow> traverse f (map g xs) = Inr xs"
  by (induction xs) auto

lemma from_condition_as_condition:
  assumes "program_laws env"
  shows "from_condition env (as_condition env np) = Inr np"
proof -
  from assms have p: "payment_from_condition env (as_condition env np) =
      Some \<lparr>payment.puzzle_hash = payment.puzzle_hash np,
            payment.amount = payment.amount np, memos = memos np\<rparr>"
    by (simp add: program_laws_def)
  from assms have i: "as_iter env (as_condition env np) =
      map (program_to env) (PyBytes32 (nonce np) # as_condition_args np)"
    by (simp add: program_laws_def as_condition_def)
  from assms have b: "as_bytes32 env (program_to env (PyBytes32 (nonce np))) = Some (nonce np)"
    by (simp add: program_laws_def)
  show ?thesis
    by (simp add: from_condition_def p i b NotarizedPayment_def)
qed

lemma asset_of_settlement_puzzle:
  assumes "cat_laws env"
  shows "asset_of_puzzle env (settlement_puzzle env k) = k"
proof (cases k)
  case None
  with assms show ?thesis
    by (simp add: cat_laws_def asset_of_puzzle_def settlement_puzzle_def)
next
  case (Some tail)
  from assms obtain m inner where
    "match_cat_puzzle env (construct_cat_puzzle env (CAT_MOD env) tail (OFFER_MOD env))
       = Some (m, tail, inner)"
    unfolding cat_laws_def by blast
  with Some show ?thesis
    by (simp add: asset_of_puzzle_def settlement_puzzle_def)
qed

lemma dummy_spend_decoded:
  assumes "program_laws env"
  shows "traverse (from_condition env) (as_iter env (solution (additional_coin_spend env (k, ps))))
           = Inr ps"
proof -
  from assms have "as_iter env (solution (additional_coin_spend env (k, ps)))
                     = map (as_condition env) ps"
    by (simp add: additional_coin_spend_def Let_def program_laws_def comp_def)
  then show ?thesis
    by (simp add: traverse_map_inverse from_condition_as_condition [OF assms])
qed

lemma from_bytes_loop_dummies:
  assumes pl: "program_laws env" and cl: "cat_laws env"
  shows "distinct (map fst (pre @ suf)) \<Longrightarrow>
           from_bytes_loop env (map (additional_coin_spend env) suf @ rest) pre lo
             = from_bytes_loop env rest (pre @ suf) lo"
proof (induction suf arbitrary: pre)
  case Nil
  then show ?case by simp
next
  case (Cons item suf)
  obtain k ps where item: "item = (k, ps)" by (cases item)
  from Cons.prems have fresh: "k \<notin> fst ` set pre" and d: "distinct (map fst ((pre @ [(k, ps)]) @ suf))"
    by (auto simp: item)
  have z: "parent_coin_info (coin (additional_coin_spend env (k, ps))) = ZERO_32"
    and r: "puzzle_reveal (additional_coin_spend env (k, ps)) = settlement_puzzle env k"
    by (simp_all add: additional_coin_spend_def Let_def)
  have "from_bytes_loop env (map (additional_coin_spend env) (item # suf) @ rest) pre lo
          = from_bytes_loop env (map (additional_coin_spend env) suf @ rest) (pre @ [(k, ps)]) lo"
    by (simp add: item z r asset_of_settlement_puzzle [OF cl] dummy_spend_decoded [OF pl]
          update_fresh [OF fresh])
  also have "\<dots> = from_bytes_loop env rest ((pre @ [(k, ps)]) @ suf) lo"
    by (rule Cons.IH [OF d])
  finally show ?case by (simp add: item)
qed

lemma from_bytes_loop_leftover:
  "list_all (\<lambda>cs. parent_coin_info (coin cs) \<noteq> ZERO_32) spends \<Longrightarrow>
     from_bytes_loop env spends rp lo = Inr (rp, lo @ spends)"
  by (induction spends arbitrary: lo) auto

text \<open>
  Claim C1, for offers that spend no coin whose parent id is \<open>ZERO_32\<close>. Over collaborators
  that obey the laws above, decoding the encoding of an offer that the constructor accepted
  gives back that very offer: the same bundle (spends and signature) and, under every asset
  key, the same list of payments, hence the same multiset. \<open>from_bytes\<close> takes every spend
  with the all-zero parent id for a dummy spend, so the offer must have none of its own.
\<close>

theorem from_bytes_round_trip:
  assumes pl: "program_laws env" and cl: "cat_laws env" and cd: "codec_laws cd"
    and valid: "Offer env rp b = Inr self"
    and keys: "distinct (map fst rp)"
    and real: "list_all (\<lambda>cs. parent_coin_info (coin cs) \<noteq> ZERO_32) (coin_spends b)"
  shows "from_bytes env cd (Offer_bytes env cd self) = Inr self"
proof -
  from valid have self: "self = \<lparr>requested_payments = rp, bundle = b\<rparr>"
    by (auto simp: Offer_def Let_def split: sum.splits)
  let ?wire = "\<lparr>coin_spends = map (additional_coin_spend env) rp @ coin_spends b,
                aggregated_signature = aggregated_signature b\<rparr>"
  have enc: "Offer_bytes env cd self = spend_bundle_bytes cd ?wire"
    by (simp add: Offer_bytes_def SpendBundle_aggregate_def self)
  from cd have dec: "spend_bundle_from_bytes cd (spend_bundle_bytes cd ?wire) = Some ?wire"
    by (simp add: codec_laws_def)
  from keys have "from_bytes_loop env (map (additional_coin_spend env) rp @ coin_spends b) [] []
                    = from_bytes_loop env (coin_spends b) rp []"
    using from_bytes_loop_dummies [OF pl cl, of "[]" rp "coin_spends b" "[]"] by simp
  also have "\<dots> = Inr (rp, coin_spends b)"
    using from_bytes_loop_leftover [OF real, of env rp "[]"] by simp
  finally have loop: "from_bytes_loop env (map (additional_coin_spend env) rp @ coin_spends b) [] []
                        = Inr (rp, coin_spends b)" .
  have same: "\<lparr>coin_spends = coin_spends b, aggregated_signature = aggregated_signature b\<rparr> = b"
    by (cases b) simp
  show ?thesis
    by (simp add: from_bytes_def enc dec loop same valid)
qed

lemma sexp_program_laws: "program_laws sexp_env"
  by (simp add: program_laws_def sexp_env_def as_condition_def as_condition_args_def comp_def)

lemma sexp_cat_laws: "cat_laws sexp_env"
  by (simp add: cat_laws_def sexp_env_def)

lemma sexp_codec_laws: "codec_laws sexp_codec"
  by (simp add: codec_laws_def sexp_codec_def)

theorem from_bytes_round_trip_witness:
  "Offer sexp_env (requested_payments offerA) bundleA = Inr offerA
     \<and> distinct (map fst (requested_payments offerA))
     \<and> list_all (\<lambda>cs. parent_coin_info (coin cs) \<noteq> ZERO_32) (coin_spends bundleA)
     \<and> from_bytes sexp_env sexp_codec (Offer_bytes sexp_env sexp_codec offerA) = Inr offerA"
proof -
  have valid: "Offer sexp_env (requested_payments offerA) bundleA = Inr offerA"
    by (simp add: sample_defs sexp_eval)
  have keys: "distinct (map fst (requested_payments offerA))"
    by (simp add: offerA_def)
  have real: "list_all (\<lambda>cs. parent_coin_info (coin cs) \<noteq> ZERO_32) (coin_spends bundleA)"
    by (simp add: sample_defs ZERO_32_def)
  from from_bytes_round_trip [OF sexp_program_laws sexp_cat_laws sexp_codec_laws valid keys real]
    valid keys real
  show ?thesis by blast
qed

text \<open>
  An offer that the constructor accepts and whose spend has the parent id \<open>ZERO_32\<close> does not
  come back: its spend is read as a list of requested payments.
\<close>

theorem from_bytes_sentinel_counterexample:
  "Offer sexp_env (requested_payments offerS) (bundle offerS) = Inr offerS
     \<and> from_bytes sexp_env sexp_codec (Offer_bytes sexp_env sexp_codec offerS) = Inl Malformed"
  by (simp add: offerS_def spendS_def sexp_eval
        from_bytes_def Offer_bytes_def sexp_codec_def from_condition_def)

section \<open>Properties of aggregation\<close>

lemmas aggregate_eval = aggregate_def load_def SpendBundle_aggregate_def post_init_def
  objA_def objD_def objAD_def bundleD_def spendD_def coinD_def offers_heap_def paymentC_def

text \<open>
  Claim C8 does not hold of the code. The first offer that requests an asset has its own
  list object bound into the new dictionary, and every later offer that requests the same
  asset extends that object: after aggregating the accepted offers A and D, which both
  request the token 9, offer A holds the payment of D as well as its own.
\<close>

theorem aggregate_extends_first_offer:
  "Offer sexp_env (requested_payments (load offers_heap objA)) bundleA = Inr (load offers_heap objA)
     \<and> Offer sexp_env (requested_payments (load offers_heap objD)) bundleD = Inr (load offers_heap objD)
     \<and> snd (aggregate sexp_env offers_heap [objA, objD]) = Inr objAD
     \<and> requested_payments (load offers_heap objA) = [(Some 9, [paymentA])]
     \<and> requested_payments (load (fst (aggregate sexp_env offers_heap [objA, objD])) objA)
          = [(Some 9, [paymentA, paymentC])]"
  by (simp add: aggregate_eval sample_defs sexp_eval)

lemma map_of_distinct_refs:
  "distinct (map snd d) \<Longrightarrow> map_of d k = Some r \<Longrightarrow> map_of d k' = Some r \<Longrightarrow> k = k'"
proof (induction d)
  case Nil
  then show ?case by simp
next
  case (Cons a d)
  then show ?case
    by (cases a) (auto split: if_splits dest!: map_of_SomeD intro: rev_image_eqI)
qed

lemma map_of_ref_in: "map_of d k = Some r \<Longrightarrow> r \<in> set (map snd d)"
  by (auto dest!: map_of_SomeD intro: rev_image_eqI)

lemma extend_loop_sound:
  assumes "extend_loop items heap tot = (heap', tot')"
    and "distinct (map fst items)" and "distinct (map snd items)"
    and "distinct (map fst tot)" and "distinct (map snd tot)"
    and "set (map snd items) \<inter> set (map snd tot) = {}"
  shows "distinct (map fst tot') \<and> distinct (map snd tot')
           \<and> set (map snd tot') \<subseteq> set (map snd tot) \<union> set (map snd items)
           \<and> fst ` set tot' = fst ` set tot \<union> fst ` set items
           \<and> (\<forall>r. r \<notin> set (map snd tot) \<union> set (map snd items) \<longrightarrow> heap' r = heap r)
           \<and> (\<forall>k. map_option heap' (map_of tot' k) =
                  (case map_of items k of
                     None \<Rightarrow> map_option heap (map_of tot k)
                   | Some r \<Rightarrow> Some (list_at heap tot k @ heap r)))"
  using assms
proof (induction items arbitrary: heap tot)
  case Nil
  then show ?case by simp
next
  case (Cons item items)
  obtain k0 p where item: "item = (k0, p)" by (cases item)
  from Cons.prems have k0: "k0 \<notin> fst ` set items" and p: "p \<notin> set (map snd items)"
    and di: "distinct (map fst items)" "distinct (map snd items)"
    and pt: "p \<notin> set (map snd tot)"
    and disj: "set (map snd items) \<inter> set (map snd tot) = {}"
    by (auto simp: item)
  show ?case
  proof (cases "map_of tot k0")
    case (Some t)
    let ?h = "heap(t := heap t @ heap p)"
    from Some have t_in: "t \<in> set (map snd tot)" by (rule map_of_ref_in)
    from Cons.prems(1) Some have run: "extend_loop items ?h tot = (heap', tot')"
      by (simp add: item)
    note ih = Cons.IH [OF run di Cons.prems(4,5) disj]
    have same_p: "\<And>r. r \<in> set (map snd items) \<Longrightarrow> ?h r = heap r"
      using disj t_in by auto
    have other: "\<And>k. k \<noteq> k0 \<Longrightarrow> list_at ?h tot k = list_at heap tot k"
      using map_of_distinct_refs [OF Cons.prems(5) _ Some]
      by (auto simp: list_at_def split: option.splits)
    have other': "\<And>k. k \<noteq> k0 \<Longrightarrow> map_option ?h (map_of tot k) = map_option heap (map_of tot k)"
      using map_of_distinct_refs [OF Cons.prems(5) _ Some]
      by (auto simp: map_option_case split: option.splits)
    have vals: "map_option heap' (map_of tot' k) =
                  (case map_of (item # items) k of
                     None \<Rightarrow> map_option heap (map_of tot k)
                   | Some r \<Rightarrow> Some (list_at heap tot k @ heap r))" for k
    proof (cases "k = k0")
      case True
      from k0 have "map_of items k0 = None"
        by (simp add: map_of_eq_None_iff)
      with ih show ?thesis
        by (simp add: True item Some list_at_def)
    next
      case False
      show ?thesis
      proof (cases "map_of items k")
        case None
        with ih other' [OF False] show ?thesis by (simp add: item False)
      next
        case (Some r)
        then have "r \<in> set (map snd items)" by (rule map_of_ref_in)
        with ih Some other [OF False] same_p show ?thesis
          by (simp add: item False)
      qed
    qed
    from Some have k0_in: "k0 \<in> fst ` set tot"
      by (auto dest!: map_of_SomeD intro: rev_image_eqI)
    have frame: "\<forall>r. r \<notin> set (map snd tot) \<union> set (map snd (item # items)) \<longrightarrow> heap' r = heap r"
      using ih t_in by auto
    have refs: "set (map snd tot') \<subseteq> set (map snd tot) \<union> set (map snd (item # items))"
      using ih by auto
    have keys: "fst ` set tot' = fst ` set tot \<union> fst ` set (item # items)"
      using ih k0_in by (auto simp: item)
    from ih have "distinct (map fst tot')" "distinct (map snd tot')" by simp_all
    with refs keys frame vals show ?thesis by blast
  next
    case None
    let ?tot = "AList.update k0 p tot"
    from None have fresh: "k0 \<notin> fst ` set tot" by (simp add: map_of_eq_None_iff)
    then have upd: "?tot = tot @ [(k0, p)]" by (rule update_fresh)
    from Cons.prems(1) None have run: "extend_loop items heap ?tot = (heap', tot')"
      by (simp add: item)
    have d1: "distinct (map fst ?tot)" using Cons.prems(4) by (simp add: distinct_update)
    have d2: "distinct (map snd ?tot)" using Cons.prems(5) pt by (simp add: upd)
    have d3: "set (map snd items) \<inter> set (map snd ?tot) = {}"
      using disj p by (auto simp: upd)
    note ih = Cons.IH [OF run di d1 d2 d3]
    have vals: "map_option heap' (map_of tot' k) =
                  (case map_of (item # items) k of
                     None \<Rightarrow> map_option heap (map_of tot k)
                   | Some r \<Rightarrow> Some (list_at heap tot k @ heap r))" for k
    proof (cases "k = k0")
      case True
      from k0 have "map_of items k0 = None"
        by (simp add: map_of_eq_None_iff)
      with ih show ?thesis
        by (simp add: True item None list_at_def update_conv')
    next
      case False
      with ih show ?thesis
        by (simp add: item list_at_def update_conv' cong: option.case_cong)
    qed
    have frame: "\<forall>r. r \<notin> set (map snd tot) \<union> set (map snd (item # items)) \<longrightarrow> heap' r = heap r"
      using ih by (auto simp: item upd)
    have refs: "set (map snd tot') \<subseteq> set (map snd tot) \<union> set (map snd (item # items))"
      using ih by (auto simp: item upd)
    have keys: "fst ` set tot' = fst ` set tot \<union> fst ` set (item # items)"
      using ih by (auto simp: item upd)
    from ih have "distinct (map fst tot')" "distinct (map snd tot')" by simp_all
    with refs keys frame vals show ?thesis by blast
  qed
qed

lemma overlapping_Cons:
  "overlapping (obj # rest) \<longleftrightarrow>
     (\<exists>j < length rest. input_coins obj \<inter> input_coins (rest ! j) \<noteq> {}) \<or> overlapping rest"
proof
  assume "overlapping (obj # rest)"
  then obtain i j where ij: "i < j" "j < length (obj # rest)"
    and ne: "input_coins ((obj # rest) ! i) \<inter> input_coins ((obj # rest) ! j) \<noteq> {}"
    unfolding overlapping_def by blast
  from ij obtain j' where j': "j = Suc j'" "j' < length rest" by (cases j) auto
  show "(\<exists>j < length rest. input_coins obj \<inter> input_coins (rest ! j) \<noteq> {}) \<or> overlapping rest"
  proof (cases i)
    case 0
    with ne j' show ?thesis by auto
  next
    case (Suc i')
    with ne j' ij have "i' < j'" "input_coins (rest ! i') \<inter> input_coins (rest ! j') \<noteq> {}"
      by auto
    with j' have "overlapping rest" unfolding overlapping_def by blast
    then show ?thesis ..
  qed
next
  assume "(\<exists>j < length rest. input_coins obj \<inter> input_coins (rest ! j) \<noteq> {}) \<or> overlapping rest"
  then show "overlapping (obj # rest)"
  proof
    assume "\<exists>j < length rest. input_coins obj \<inter> input_coins (rest ! j) \<noteq> {}"
    then obtain j where "j < length rest" "input_coins obj \<inter> input_coins (rest ! j) \<noteq> {}"
      by blast
    then have "0 < Suc j \<and> Suc j < length (obj # rest)
                 \<and> input_coins ((obj # rest) ! 0) \<inter> input_coins ((obj # rest) ! Suc j) \<noteq> {}"
      by simp
    then show ?thesis unfolding overlapping_def by blast
  next
    assume "overlapping rest"
    then obtain i j where "i < j" "j < length rest"
      "input_coins (rest ! i) \<inter> input_coins (rest ! j) \<noteq> {}"
      unfolding overlapping_def by blast
    then have "Suc i < Suc j \<and> Suc j < length (obj # rest)
                 \<and> input_coins ((obj # rest) ! Suc i) \<inter> input_coins ((obj # rest) ! Suc j) \<noteq> {}"
      by simp
    then show ?thesis unfolding overlapping_def by blast
  qed
qed

lemma ex_nth_set: "(\<exists>j < length l. Q (l ! j)) \<longleftrightarrow> (\<exists>y \<in> set l. Q y)"
  by (metis in_set_conv_nth)

lemma overlaps_iff:
  "overlaps seen offers \<longleftrightarrow>
     (\<exists>j < length offers. seen \<inter> input_coins (offers ! j) \<noteq> {}) \<or> overlapping offers"
proof (induction offers arbitrary: seen)
  case Nil
  then show ?case by (simp add: overlapping_def)
next
  case (Cons obj rest)
  have split: "(\<exists>j < length (obj # rest). seen \<inter> input_coins ((obj # rest) ! j) \<noteq> {}) \<longleftrightarrow>
                 seen \<inter> input_coins obj \<noteq> {} \<or> (\<exists>j < length rest. seen \<inter> input_coins (rest ! j) \<noteq> {})"
    using ex_nth_set [of "obj # rest" "\<lambda>x. seen \<inter> input_coins x \<noteq> {}"]
      ex_nth_set [of rest "\<lambda>x. seen \<inter> input_coins x \<noteq> {}"]
    by simp
  have un: "\<And>X. (seen \<union> input_coins obj) \<inter> X \<noteq> {} \<longleftrightarrow> seen \<inter> X \<noteq> {} \<or> input_coins obj \<inter> X \<noteq> {}"
    by auto
  show ?case
    unfolding overlaps.simps Cons.IH split overlapping_Cons un by blast
qed

lemma overlaps_empty: "overlaps {} offers \<longleftrightarrow> overlapping offers"
  by (simp add: overlaps_iff)

lemma aggregate_loop_overlaps:
  "overlaps (set (map coin (coin_spends tb))) offers \<Longrightarrow>
     snd (aggregate_loop offers heap tot tb) = Inl OverlappingInputs"
proof (induction offers arbitrary: heap tot tb)
  case Nil
  then show ?case by simp
next
  case (Cons obj rest)
  show ?case
  proof (cases "set (map coin (coin_spends tb)) \<inter> input_coins obj \<noteq> {}")
    case True
    then show ?thesis by (simp add: input_coins_def)
  next
    case False
    with Cons.prems have
      "overlaps (set (map coin (coin_spends (SpendBundle_aggregate [tb, object_bundle obj])))) rest"
      by (simp add: SpendBundle_aggregate_def input_coins_def)
    from Cons.IH [OF this] False show ?thesis
      by (simp add: input_coins_def split: prod.splits)
  qed
qed

lemma list_at_map_option:
  "list_at heap d k = (case map_option heap (map_of d k) of Some l \<Rightarrow> l | None \<Rightarrow> [])"
  by (simp add: list_at_def split: option.splits)

lemma aggregate_loop_sound:
  assumes "\<not> overlaps (set (map coin (coin_spends tb))) offers"
    and "list_all (\<lambda>obj. distinct (map fst (payment_lists obj))) offers"
    and "distinct (concat (map (\<lambda>obj. map snd (payment_lists obj)) offers))"
    and "distinct (map fst tot)" and "distinct (map snd tot)"
    and "set (map snd tot) \<inter> (\<Union>obj \<in> set offers. set (map snd (payment_lists obj))) = {}"
  shows "\<exists>heap' obj. aggregate_loop offers heap tot tb = (heap', Inr obj)
           \<and> distinct (map fst (payment_lists obj))
           \<and> coin_spends (object_bundle obj) =
               coin_spends tb @ concat (map (\<lambda>obj. coin_spends (object_bundle obj)) offers)
           \<and> (\<forall>k. map_option heap' (map_of (payment_lists obj) k) =
                 (if k \<in> fst ` set tot \<union> (\<Union>obj \<in> set offers. fst ` set (payment_lists obj))
                  then Some (list_at heap tot k @ requested_concat heap offers k)
                  else None))"
  using assms
proof (induction offers arbitrary: heap tot tb)
  case Nil
  then show ?case
    by (auto simp: requested_concat_def list_at_def map_of_eq_None_iff [symmetric]
          split: option.splits)
next
  case (Cons obj rest)
  obtain h1 tot1 where ext: "extend_loop (payment_lists obj) heap tot = (h1, tot1)"
    by (cases "extend_loop (payment_lists obj) heap tot")
  from Cons.prems have dk: "distinct (map fst (payment_lists obj))"
    and dr: "distinct (map snd (payment_lists obj))"
    and disj: "set (map snd (payment_lists obj)) \<inter> set (map snd tot) = {}"
    by auto
  note e = extend_loop_sound [OF ext dk dr Cons.prems(4,5) disj]
  let ?tb = "SpendBundle_aggregate [tb, object_bundle obj]"
  from Cons.prems(1) have no1: "set (map coin (coin_spends tb)) \<inter> input_coins obj = {}"
    and no2: "\<not> overlaps (set (map coin (coin_spends ?tb))) rest"
    by (simp_all add: SpendBundle_aggregate_def input_coins_def)
  from Cons.prems have p2: "list_all (\<lambda>obj. distinct (map fst (payment_lists obj))) rest"
    and p3: "distinct (concat (map (\<lambda>obj. map snd (payment_lists obj)) rest))"
    by simp_all
  have rest_refs: "(\<Union>x \<in> set rest. set (map snd (payment_lists x)))
                     \<inter> (set (map snd tot) \<union> set (map snd (payment_lists obj))) = {}"
  proof -
    from Cons.prems(3) have "set (map snd (payment_lists obj))
        \<inter> (\<Union>x \<in> set rest. set (map snd (payment_lists x))) = {}"
      by simp
    with Cons.prems(6) show ?thesis by (simp add: Int_Un_distrib Int_commute)
  qed
  with e have p6: "set (map snd tot1) \<inter> (\<Union>x \<in> set rest. set (map snd (payment_lists x))) = {}"
    by blast
  from e have p4: "distinct (map fst tot1)" and p5: "distinct (map snd tot1)" by simp_all
  from Cons.IH [OF no2 p2 p3 p4 p5 p6, of h1]
  obtain heap' res where run: "aggregate_loop rest h1 tot1 ?tb = (heap', Inr res)"
    and dres: "distinct (map fst (payment_lists res))"
    and sp: "coin_spends (object_bundle res) =
               coin_spends ?tb @ concat (map (\<lambda>obj. coin_spends (object_bundle obj)) rest)"
    and vals: "\<forall>k. map_option heap' (map_of (payment_lists res) k) =
                 (if k \<in> fst ` set tot1 \<union> (\<Union>obj \<in> set rest. fst ` set (payment_lists obj))
                  then Some (list_at h1 tot1 k @ requested_concat h1 rest k)
                  else None)"
    by blast
  from no1 have run': "aggregate_loop (obj # rest) heap tot tb = (heap', Inr res)"
    by (simp add: input_coins_def ext run)
  have sp': "coin_spends (object_bundle res) =
               coin_spends tb @ concat (map (\<lambda>obj. coin_spends (object_bundle obj)) (obj # rest))"
    by (simp add: sp SpendBundle_aggregate_def)
  have frame: "h1 r = heap r" if "r \<in> (\<Union>x \<in> set rest. set (map snd (payment_lists x)))" for r
    using e rest_refs that by blast
  have rc: "requested_concat h1 rest k = requested_concat heap rest k" for k
  proof -
    have "list_at h1 (payment_lists x) k = list_at heap (payment_lists x) k" if "x \<in> set rest" for x
    proof (cases "map_of (payment_lists x) k")
      case None
      then show ?thesis by (simp add: list_at_def)
    next
      case (Some r)
      then have "r \<in> set (map snd (payment_lists x))" by (rule map_of_ref_in)
      with that have "h1 r = heap r" by (intro frame) blast
      with Some show ?thesis by (simp add: list_at_def)
    qed
    then show ?thesis by (simp add: requested_concat_def cong: map_cong)
  qed
  have ev: "map_option h1 (map_of tot1 k) =
              (case map_of (payment_lists obj) k of
                 None \<Rightarrow> map_option heap (map_of tot k)
               | Some r \<Rightarrow> Some (list_at heap tot k @ heap r))" for k
    using e by blast
  have la: "list_at h1 tot1 k = list_at heap tot k @ list_at heap (payment_lists obj) k" for k
    unfolding list_at_map_option [of h1 tot1 k] ev [of k]
    by (simp add: list_at_def split: option.splits)
  have rc2: "requested_concat heap (obj # rest) k =
               list_at heap (payment_lists obj) k @ requested_concat heap rest k" for k
    by (simp add: requested_concat_def)
  have keys: "fst ` set tot1 \<union> (\<Union>obj \<in> set rest. fst ` set (payment_lists obj)) =
                fst ` set tot \<union> (\<Union>x \<in> set (obj # rest). fst ` set (payment_lists x))"
    using e by auto
  have vals': "\<forall>k. map_option heap' (map_of (payment_lists res) k) =
                 (if k \<in> fst ` set tot \<union> (\<Union>x \<in> set (obj # rest). fst ` set (payment_lists x))
                  then Some (list_at heap tot k @ requested_concat heap (obj # rest) k)
                  else None)"
    unfolding keys [symmetric] using vals by (simp add: rc la rc2)
  from run' dres sp' vals' show ?case by blast
qed

lemma offered_loop_error: "offered_loop env spends adds acc = Inl e \<Longrightarrow> e = IndexError"
proof (induction adds arbitrary: acc)
  case Nil
  then show ?case by simp
next
  case (Cons a adds)
  then show ?case
    by (auto simp: offered_loop_step split: if_splits option.splits)
qed

lemma post_init_error:
  "post_init env self = Inl e \<Longrightarrow> e = IndexError \<or> e = EmptyOffer \<or> e = DuplicatePayment"
  by (auto simp: post_init_cases get_offered_coins_def split: sum.splits if_splits
        dest: offered_loop_error)

lemma load_map_of:
  "map_of (requested_payments (load heap obj)) k = map_option heap (map_of (payment_lists obj) k)"
  by (simp add: load_def map_of_map)

lemma aggregate_loop_returns:
  "\<not> overlaps (set (map coin (coin_spends tb))) offers \<Longrightarrow>
     \<exists>h obj. aggregate_loop offers heap tot tb = (h, Inr obj)"
proof (induction offers arbitrary: heap tot tb)
  case Nil
  then show ?case by simp
next
  case (Cons x rest)
  obtain h1 tot1 where ext: "extend_loop (payment_lists x) heap tot = (h1, tot1)"
    by (cases "extend_loop (payment_lists x) heap tot")
  from Cons.prems have no1: "set (map coin (coin_spends tb)) \<inter> input_coins x = {}"
    and no2: "\<not> overlaps (set (map coin (coin_spends (SpendBundle_aggregate [tb, object_bundle x])))) rest"
    by (simp_all add: SpendBundle_aggregate_def input_coins_def)
  from Cons.IH [OF no2, of h1 tot1] no1 show ?case
    by (simp add: input_coins_def ext)
qed

lemma aggregate_overlapping_iff:
  "snd (aggregate env heap offers) = Inl OverlappingInputs \<longleftrightarrow> overlapping offers"
proof (cases "overlapping offers")
  case True
  then have "overlaps (set (map coin (coin_spends
               (\<lparr>coin_spends = [], aggregated_signature = 0\<rparr> :: ('a, 'b) spend_bundle)))) offers"
    by (simp add: overlaps_empty)
  from aggregate_loop_overlaps [OF this, of heap "[]"] True show ?thesis
    by (auto simp: aggregate_def split: prod.splits sum.splits)
next
  case False
  let ?tb = "\<lparr>coin_spends = [], aggregated_signature = 0\<rparr> :: ('a, 'b) spend_bundle"
  from False have "\<not> overlaps (set (map coin (coin_spends ?tb))) offers"
    by (simp add: overlaps_empty)
  from aggregate_loop_returns [OF this, of heap "[]"]
  obtain h obj where run: "aggregate_loop offers heap [] ?tb = (h, Inr obj)" by blast
  have "snd (aggregate env heap offers) \<noteq> Inl OverlappingInputs"
    using post_init_error [of env "load h obj"]
    by (auto simp: aggregate_def run split: sum.splits)
  with False show ?thesis by simp
qed

text \<open>
  Claim C4, as the code aggregates. For every list of offers, \<open>aggregate\<close> fails with
  \<open>OverlappingInputs\<close> exactly when two offers of the list share an input coin. When no two
  do and the payment lists of the offers are separate objects, the loop builds the bundle
  whose spends are the concatenation of the inputs' spends and the dictionary that holds,
  under every asset key of some input, the concatenation in input order of the inputs' lists
  for that key; the result is what the constructor makes of the two: that offer when
  \<open>__post_init__\<close> accepts it, and otherwise the constructor's error (\<open>EmptyOffer\<close>, as for
  the empty list of offers, \<open>DuplicatePayment\<close>, or the lookup error of
  \<open>get_offered_coins\<close>).
\<close>

theorem aggregate_concatenates:
  "(snd (aggregate env heap offers) = Inl OverlappingInputs \<longleftrightarrow> overlapping offers)
   \<and> (separate_lists offers \<longrightarrow> \<not> overlapping offers \<longrightarrow>
        (\<exists>heap' obj.
           coin_spends (object_bundle obj) =
             concat (map (\<lambda>x. coin_spends (object_bundle x)) offers)
           \<and> (\<forall>k. map_of (requested_payments (load heap' obj)) k =
                  (if \<exists>x \<in> set offers. k \<in> fst ` set (payment_lists x)
                   then Some (requested_concat heap offers k) else None))
           \<and> aggregate env heap offers =
               (heap', case post_init env (load heap' obj) of
                         Inl e \<Rightarrow> Inl e | Inr u \<Rightarrow> Inr obj)
           \<and> (\<forall>e. post_init env (load heap' obj) = Inl e \<longrightarrow>
                  e = IndexError \<or> e = EmptyOffer \<or> e = DuplicatePayment)))"
proof (intro conjI impI)
  show "snd (aggregate env heap offers) = Inl OverlappingInputs \<longleftrightarrow> overlapping offers"
    by (rule aggregate_overlapping_iff)
next
  assume sep: "separate_lists offers" and no: "\<not> overlapping offers"
  let ?tb = "\<lparr>coin_spends = [], aggregated_signature = 0\<rparr> :: ('a, 'b) spend_bundle"
  from no have no': "\<not> overlaps (set (map coin (coin_spends ?tb))) offers"
    by (simp add: overlaps_empty)
  from sep have s1: "list_all (\<lambda>obj. distinct (map fst (payment_lists obj))) offers"
    and s2: "distinct (concat (map (\<lambda>obj. map snd (payment_lists obj)) offers))"
    by (simp_all add: separate_lists_def)
  from aggregate_loop_sound [OF no' s1 s2, of "[]" heap]
  obtain heap' obj where run: "aggregate_loop offers heap [] ?tb = (heap', Inr obj)"
    and sp: "coin_spends (object_bundle obj) = concat (map (\<lambda>x. coin_spends (object_bundle x)) offers)"
    and vals: "\<forall>k. map_option heap' (map_of (payment_lists obj) k) =
                 (if k \<in> (\<Union>x \<in> set offers. fst ` set (payment_lists x))
                  then Some (requested_concat heap offers k) else None)"
    by (auto simp: list_at_def)
  have agg: "aggregate env heap offers =
               (heap', case post_init env (load heap' obj) of Inl e \<Rightarrow> Inl e | Inr u \<Rightarrow> Inr obj)"
    by (simp add: aggregate_def run split: sum.splits)
  from vals have vals': "\<forall>k. map_of (requested_payments (load heap' obj)) k =
                        (if \<exists>x \<in> set offers. k \<in> fst ` set (payment_lists x)
                         then Some (requested_concat heap offers k) else None)"
    by (simp add: load_map_of)
  from sp vals' agg post_init_error [of env "load heap' obj"]
  show "\<exists>heap' obj.
           coin_spends (object_bundle obj) =
             concat (map (\<lambda>x. coin_spends (object_bundle x)) offers)
           \<and> (\<forall>k. map_of (requested_payments (load heap' obj)) k =
                  (if \<exists>x \<in> set offers. k \<in> fst ` set (payment_lists x)
                   then Some (requested_concat heap offers k) else None))
           \<and> aggregate env heap offers =
               (heap', case post_init env (load heap' obj) of
                         Inl e \<Rightarrow> Inl e | Inr u \<Rightarrow> Inr obj)
           \<and> (\<forall>e. post_init env (load heap' obj) = Inl e \<longrightarrow>
                  e = IndexError \<or> e = EmptyOffer \<or> e = DuplicatePayment)"
    by blast
qed

theorem aggregate_concatenates_witness:
  "separate_lists [objA, objD]
     \<and> \<not> overlapping [objA, objD]
     \<and> snd (aggregate sexp_env offers_heap [objA, objD]) \<noteq> Inl OverlappingInputs
     \<and> (\<exists>heap' obj.
           coin_spends (object_bundle obj) = [spendA, spendD]
           \<and> map_of (requested_payments (load heap' obj)) (Some 9) = Some [paymentA, paymentC]
           \<and> aggregate sexp_env offers_heap [objA, objD] =
               (heap', case post_init sexp_env (load heap' obj) of
                         Inl e \<Rightarrow> Inl e | Inr u \<Rightarrow> Inr obj))"
proof -
  have sep: "separate_lists [objA, objD]"
    by (simp add: separate_lists_def objA_def objD_def)
  have no: "\<not> overlapping [objA, objD]"
    by (simp add: overlaps_empty [symmetric] input_coins_def objA_def objD_def
          bundleD_def spendD_def coinD_def sample_defs)
  note t = aggregate_concatenates [of sexp_env offers_heap "[objA, objD]"]
  from t no have a: "snd (aggregate sexp_env offers_heap [objA, objD]) \<noteq> Inl OverlappingInputs"
    by blast
  from t sep no obtain heap' obj where
    sp: "coin_spends (object_bundle obj) =
           concat (map (\<lambda>x. coin_spends (object_bundle x)) [objA, objD])"
    and vals: "\<forall>k. map_of (requested_payments (load heap' obj)) k =
                  (if \<exists>x \<in> set [objA, objD]. k \<in> fst ` set (payment_lists x)
                   then Some (requested_concat offers_heap [objA, objD] k) else None)"
    and agg: "aggregate sexp_env offers_heap [objA, objD] =
               (heap', case post_init sexp_env (load heap' obj) of
                         Inl e \<Rightarrow> Inl e | Inr u \<Rightarrow> Inr obj)"
    by blast
  from sp have sp': "coin_spends (object_bundle obj) = [spendA, spendD]"
    by (simp add: objA_def objD_def bundleA_def bundleD_def)
  from vals [rule_format, of "Some 9"]
  have v: "map_of (requested_payments (load heap' obj)) (Some 9) = Some [paymentA, paymentC]"
    by (simp add: requested_concat_def list_at_def objA_def objD_def offers_heap_def)
  from sep no a sp' v agg show ?thesis by blast
qed

text \<open>
  The claim as stated has an offer returned whenever the inputs are pairwise disjoint: the
  empty list of offers is, and \<open>aggregate\<close> fails on it with \<open>EmptyOffer\<close>.
\<close>

theorem aggregate_empty_counterexample:
  "\<not> overlapping ([] :: (sexp, int) offer_object list)
     \<and> snd (aggregate sexp_env offers_heap []) = Inl EmptyOffer"
  by (simp add: overlapping_def aggregate_def load_def post_init_def sexp_eval)

section \<open>Validity of an aggregate\<close>

lemma uint64_fits: "uint64 v = (if fits v then Inr v else Inl Overflow)"
  by (simp add: uint64_def fits_def)

lemma amounts_loop_distinct:
  "distinct (map fst acc @ map fst xs) \<Longrightarrow>
     amounts_loop xs acc =
       (if list_all (\<lambda>(k, amts). fits (sum_list amts)) xs
        then Inr (acc @ map (\<lambda>(k, amts). (k, sum_list amts)) xs)
        else Inl Overflow)"
proof (induction xs arbitrary: acc)
  case Nil
  then show ?case by simp
next
  case (Cons x xs)
  obtain k amts where x: "x = (k, amts)" by (cases x)
  from Cons.prems have fresh: "k \<notin> fst ` set acc"
    and d: "distinct (map fst (acc @ [(k, sum_list amts)]) @ map fst xs)"
    by (auto simp: x)
  show ?case
    by (simp add: x uint64_fits update_fresh [OF fresh] Cons.IH [OF d])
qed

lemma list_all_fits:
  assumes "distinct (map fst xs)"
  shows "list_all (\<lambda>(k, amts). fits (sum_list amts)) xs
           \<longleftrightarrow> (\<forall>k. fits (sum_list (dict_get xs k [])))"
proof
  assume a: "list_all (\<lambda>(k, amts). fits (sum_list amts)) xs"
  show "\<forall>k. fits (sum_list (dict_get xs k []))"
  proof
    fix k
    show "fits (sum_list (dict_get xs k []))"
    proof (cases "map_of xs k")
      case None
      then show ?thesis by (simp add: dict_get_def fits_def)
    next
      case (Some amts)
      then have "(k, amts) \<in> set xs" by (rule map_of_SomeD)
      with a Some show ?thesis by (auto simp: dict_get_def list_all_iff)
    qed
  qed
next
  assume a: "\<forall>k. fits (sum_list (dict_get xs k []))"
  show "list_all (\<lambda>(k, amts). fits (sum_list amts)) xs"
    unfolding list_all_iff
  proof (clarify)
    fix k amts assume "(k, amts) \<in> set xs"
    with assms have "map_of xs k = Some amts" by simp
    with a [rule_format, of k] show "fits (sum_list amts)" by (simp add: dict_get_def)
  qed
qed

lemma amounts_loop_char:
  assumes "distinct (map fst xs)"
  shows "amounts_loop xs [] =
           (if \<forall>k. fits (sum_list (dict_get xs k []))
            then Inr (map (\<lambda>(k, amts). (k, sum_list amts)) xs)
            else Inl Overflow)"
  using amounts_loop_distinct [of "[]" xs] assms list_all_fits [OF assms] by simp

lemma dict_get_sums:
  "dict_get (map (\<lambda>(k, amts). (k, sum_list amts)) xs) k 0 = sum_list (dict_get xs k [])"
  by (simp add: dict_get_def map_of_map split: option.splits)

lemma dict_get_map_values:
  "dict_get (map (\<lambda>(k, v). (k, map g v)) d) k [] = map g (dict_get d k [])"
  by (simp add: dict_get_def map_of_map split: option.splits)

lemma keys_map_values: "map fst (map (\<lambda>(k, v). (k, g v)) d) = map fst d"
  by (induction d) auto

lemma get_requested_amounts_char:
  assumes "distinct (map fst (requested_payments self))"
  shows "get_requested_amounts self =
           (if \<forall>k. fits (requested_total self k)
            then Inr (map (\<lambda>(k, amts). (k, sum_list amts))
                       (map (\<lambda>(k, ps). (k, map payment.amount ps)) (requested_payments self)))
            else Inl Overflow)"
  unfolding get_requested_amounts_def requested_total_def
  using amounts_loop_char
          [of "map (\<lambda>(k, ps). (k, map payment.amount ps)) (requested_payments self)"] assms
  by (simp only: keys_map_values dict_get_map_values)

lemma get_offered_coins_dict_get:
  assumes "get_offered_coins env self = Inr oc"
  shows "dict_get oc k [] =
           filter (\<lambda>a. settled_asset env (coin_spends (bundle self)) a = Some k)
             (additions env (bundle self))"
  using get_offered_coins_map_of [OF assms, of k]
  by (simp add: dict_get_def Let_def split: if_splits)

lemma get_offered_amounts_char:
  assumes goc: "get_offered_coins env self = Inr oc"
  shows "get_offered_amounts env self =
           (if \<forall>k. fits (offered_total env self k)
            then Inr (map (\<lambda>(k, amts). (k, sum_list amts))
                       (map (\<lambda>(k, coins). (k, map coin.amount coins)) oc))
            else Inl Overflow)"
proof -
  have d: "distinct (map fst (map (\<lambda>(k, coins). (k, map coin.amount coins)) oc))"
    using get_offered_coins_distinct [OF goc] by (simp only: keys_map_values)
  have t: "sum_list (dict_get (map (\<lambda>(k, coins). (k, map coin.amount coins)) oc) k [])
             = offered_total env self k" for k
    by (simp only: dict_get_map_values get_offered_coins_dict_get [OF goc] offered_total_def)
  show ?thesis
    by (simp add: get_offered_amounts_def goc amounts_loop_char [OF d] t)
qed

lemma map_of_None_keys: "k \<notin> set (map fst d) \<Longrightarrow> map_of d k = None"
  by (simp add: map_of_eq_None_iff)

lemma is_valid_char:
  assumes goc: "get_offered_coins env self = Inr oc"
    and dk: "distinct (map fst (requested_payments self))"
  shows "is_valid env self =
           (if (\<forall>k. fits (offered_total env self k)) \<and> (\<forall>k. fits (requested_total self k))
            then Inr (\<forall>k. requested_total self k \<le> offered_total env self k)
            else Inl Overflow)"
proof (cases "(\<forall>k. fits (offered_total env self k)) \<and> (\<forall>k. fits (requested_total self k))")
  case False
  then show ?thesis
    by (auto simp: is_valid_def arbitrage_def get_offered_amounts_char [OF goc]
          get_requested_amounts_char [OF dk])
next
  case True
  let ?off = "map (\<lambda>(k, amts). (k, sum_list amts))
                (map (\<lambda>(k, coins). (k, map coin.amount coins)) oc)"
  let ?req = "map (\<lambda>(k, amts). (k, sum_list amts))
                (map (\<lambda>(k, ps). (k, map payment.amount ps)) (requested_payments self))"
  let ?f = "\<lambda>k. dict_get ?off k 0 - dict_get ?req k 0"
  let ?arb = "fold (\<lambda>k d. AList.update k (?f k) d) (map fst ?req @ map fst ?off) []"
  from True have off: "get_offered_amounts env self = Inr ?off"
    and req: "get_requested_amounts self = Inr ?req"
    by (simp_all add: get_offered_amounts_char [OF goc] get_requested_amounts_char [OF dk])
  have o: "dict_get ?off k 0 = offered_total env self k" for k
    by (simp only: dict_get_sums dict_get_map_values get_offered_coins_dict_get [OF goc]
          offered_total_def)
  have r: "dict_get ?req k 0 = requested_total self k" for k
    by (simp only: dict_get_sums dict_get_map_values requested_total_def)
  have arb: "arbitrage env self = Inr ?arb"
    by (simp add: arbitrage_def off req)
  have d: "distinct (map fst ?arb)"
    by (rule distinct_fold_update) simp
  have m: "map_of ?arb k = (if k \<in> set (map fst ?req @ map fst ?off) then Some (?f k) else None)" for k
    by (simp only: map_of_fold_update) simp
  have "(\<forall>v \<in> snd ` set ?arb. 0 \<le> v) \<longleftrightarrow> (\<forall>k. requested_total self k \<le> offered_total env self k)"
  proof
    assume a: "\<forall>v \<in> snd ` set ?arb. 0 \<le> v"
    show "\<forall>k. requested_total self k \<le> offered_total env self k"
    proof
      fix k
      show "requested_total self k \<le> offered_total env self k"
      proof (cases "k \<in> set (map fst ?req @ map fst ?off)")
        case True
        with m [of k] have "map_of ?arb k = Some (?f k)" by simp
        then have "(k, ?f k) \<in> set ?arb" by (rule map_of_SomeD)
        then have "?f k \<in> snd ` set ?arb" by force
        with a have "0 \<le> ?f k" by blast
        then show ?thesis unfolding o r by simp
      next
        case False
        then have ko: "k \<notin> set (map fst ?off)" and kr: "k \<notin> set (map fst ?req)"
          unfolding set_append by blast+
        have "map_of ?off k = None" "map_of ?req k = None"
          by (rule map_of_None_keys [OF ko], rule map_of_None_keys [OF kr])
        then have "dict_get ?off k 0 = 0" "dict_get ?req k 0 = 0"
          by (simp_all add: dict_get_def)
        then show ?thesis unfolding o r by simp
      qed
    qed
  next
    assume a: "\<forall>k. requested_total self k \<le> offered_total env self k"
    show "\<forall>v \<in> snd ` set ?arb. 0 \<le> v"
    proof
      fix v assume "v \<in> snd ` set ?arb"
      then obtain k where "(k, v) \<in> set ?arb" by force
      with d have "map_of ?arb k = Some v" by simp
      with m [of k] have "v = ?f k" by (simp split: if_splits)
      with a [rule_format, of k] show "0 \<le> v" unfolding o r by simp
    qed
  qed
  then show ?thesis
    using True by (simp add: is_valid_def arb list_all_iff)
qed

lemma unique_spender:
  assumes no: "\<not> overlapping offers"
    and inj: "inj_on (coin_name env) (\<Union>x \<in> set offers. input_coins x)"
    and x: "x \<in> set offers" and y: "y \<in> set offers"
    and fx: "filter (\<lambda>cs. coin_name env (coin cs) = p) (coin_spends (object_bundle x)) \<noteq> []"
    and fy: "filter (\<lambda>cs. coin_name env (coin cs) = p) (coin_spends (object_bundle y)) \<noteq> []"
  shows "y = x"
proof -
  from fx obtain cx where cx: "cx \<in> set (coin_spends (object_bundle x))" "coin_name env (coin cx) = p"
    by (auto simp: filter_empty_conv)
  from fy obtain cy where cy: "cy \<in> set (coin_spends (object_bundle y))" "coin_name env (coin cy) = p"
    by (auto simp: filter_empty_conv)
  from cx x have ix: "coin cx \<in> input_coins x" "coin cx \<in> (\<Union>x \<in> set offers. input_coins x)"
    by (auto simp: input_coins_def)
  from cy y have iy: "coin cy \<in> input_coins y" "coin cy \<in> (\<Union>x \<in> set offers. input_coins x)"
    by (auto simp: input_coins_def)
  from inj ix(2) iy(2) cx(2) cy(2) have "coin cx = coin cy"
    by (auto dest: inj_onD)
  with ix iy have common: "input_coins x \<inter> input_coins y \<noteq> {}" by auto
  from x obtain i where i: "i < length offers" "offers ! i = x" by (auto simp: in_set_conv_nth)
  from y obtain j where j: "j < length offers" "offers ! j = y" by (auto simp: in_set_conv_nth)
  show ?thesis
  proof (rule ccontr)
    assume "y \<noteq> x"
    with i j have "i \<noteq> j" by auto
    then consider "i < j" | "j < i" by linarith
    then have "overlapping offers"
    proof cases
      case 1
      with i j common show ?thesis unfolding overlapping_def by blast
    next
      case 2
      from common have "input_coins y \<inter> input_coins x \<noteq> {}" by auto
      with 2 i j show ?thesis unfolding overlapping_def by blast
    qed
    with no show False ..
  qed
qed

lemma parent_spend_concat:
  assumes "x \<in> set offers"
    and "filter (\<lambda>cs. coin_name env (coin cs) = p) (coin_spends (object_bundle x)) \<noteq> []"
    and "\<And>y. y \<in> set offers \<Longrightarrow>
           filter (\<lambda>cs. coin_name env (coin cs) = p) (coin_spends (object_bundle y)) \<noteq> [] \<Longrightarrow> y = x"
  shows "parent_spend env (concat (map (\<lambda>x. coin_spends (object_bundle x)) offers)) p
           = parent_spend env (coin_spends (object_bundle x)) p"
  using assms
proof (induction offers)
  case Nil
  then show ?case by simp
next
  case (Cons y ys)
  show ?case
  proof (cases "filter (\<lambda>cs. coin_name env (coin cs) = p) (coin_spends (object_bundle y)) = []")
    case True
    with Cons.prems(2) have "y \<noteq> x" by auto
    with Cons.prems(1) have "x \<in> set ys" by simp
    from Cons.IH [OF this Cons.prems(2)] Cons.prems(3) True show ?thesis
      by (simp add: parent_spend_def)
  next
    case False
    with Cons.prems(3) [of y] have "y = x" by simp
    with False show ?thesis
      by (auto simp: parent_spend_def split: list.splits)
  qed
qed

lemma settled_asset_parent:
  "parent_spend env s1 (parent_coin_info a) = parent_spend env s2 (parent_coin_info a) \<Longrightarrow>
     settled_asset env s1 a = settled_asset env s2 a"
  by (simp add: settled_asset_def)

lemma concat_map_concat: "concat (map f (concat xss)) = concat (map (\<lambda>xs. concat (map f xs)) xss)"
  by (induction xss) auto

lemma sum_amounts_concat:
  "sum_list (map g (filter Q (concat (map A xs)))) =
     sum_list (map (\<lambda>x. sum_list (map g (filter Q (A x)))) xs)"
  by (induction xs) auto

lemma offered_total_concat:
  assumes sp: "coin_spends (bundle agg) = concat (map (\<lambda>x. coin_spends (object_bundle x)) offers)"
    and no: "\<not> overlapping offers"
    and inj: "inj_on (coin_name env) (\<Union>x \<in> set offers. input_coins x)"
    and parents: "\<And>x. x \<in> set offers \<Longrightarrow>
        list_all (has_parent env (coin_spends (object_bundle x))) (additions env (object_bundle x))"
  shows "offered_total env agg k = sum_list (map (\<lambda>x. offered_total env (load heap x) k) offers)"
proof -
  let ?all = "concat (map (\<lambda>x. coin_spends (object_bundle x)) offers)"
  have adds: "additions env (bundle agg) = concat (map (\<lambda>x. additions env (object_bundle x)) offers)"
    by (simp add: additions_def sp concat_map_concat comp_def)
  have same: "settled_asset env ?all a = settled_asset env (coin_spends (object_bundle x)) a"
    if x: "x \<in> set offers" and a: "a \<in> set (additions env (object_bundle x))" for x a
  proof (rule settled_asset_parent, rule parent_spend_concat [OF x])
    from parents [OF x] a
    show f: "filter (\<lambda>cs. coin_name env (coin cs) = parent_coin_info a)
               (coin_spends (object_bundle x)) \<noteq> []"
      by (auto simp: list_all_iff has_parent_def)
    fix y assume "y \<in> set offers"
      and "filter (\<lambda>cs. coin_name env (coin cs) = parent_coin_info a)
             (coin_spends (object_bundle y)) \<noteq> []"
    with unique_spender [OF no inj x _ f] show "y = x" by blast
  qed
  have "offered_total env agg k =
          sum_list (map (\<lambda>x. sum_list (map coin.amount
                      (filter (\<lambda>a. settled_asset env ?all a = Some k) (additions env (object_bundle x)))))
                    offers)"
    by (simp only: offered_total_def adds sp sum_amounts_concat)
  also have "\<dots> = sum_list (map (\<lambda>x. offered_total env (load heap x) k) offers)"
  proof (rule arg_cong [where f = sum_list], rule map_cong [OF refl])
    fix x assume x: "x \<in> set offers"
    have "filter (\<lambda>a. settled_asset env ?all a = Some k) (additions env (object_bundle x))
            = filter (\<lambda>a. settled_asset env (coin_spends (object_bundle x)) a = Some k)
                (additions env (object_bundle x))"
      by (rule filter_cong [OF refl]) (simp add: same [OF x])
    then show "sum_list (map coin.amount
                 (filter (\<lambda>a. settled_asset env ?all a = Some k) (additions env (object_bundle x))))
               = offered_total env (load heap x) k"
      by (simp add: offered_total_def load_def)
  qed
  finally show ?thesis .
qed

lemma list_at_load: "list_at heap (payment_lists x) k = dict_get (requested_payments (load heap x)) k []"
  by (simp add: list_at_def dict_get_def load_map_of split: option.splits)

lemma requested_concat_absent:
  "\<forall>x \<in> set offers. k \<notin> fst ` set (payment_lists x) \<Longrightarrow> requested_concat heap offers k = []"
proof -
  assume a: "\<forall>x \<in> set offers. k \<notin> fst ` set (payment_lists x)"
  have "list_at heap (payment_lists x) k = []" if "x \<in> set offers" for x
  proof -
    from a that have "map_of (payment_lists x) k = None"
      by (simp add: map_of_eq_None_iff)
    then show ?thesis by (simp add: list_at_def)
  qed
  then show ?thesis by (simp add: requested_concat_def)
qed

lemma requested_total_concat:
  assumes "\<forall>k. map_of (requested_payments agg) k =
                 (if \<exists>x \<in> set offers. k \<in> fst ` set (payment_lists x)
                  then Some (requested_concat heap offers k) else None)"
  shows "requested_total agg k = sum_list (map (\<lambda>x. requested_total (load heap x) k) offers)"
proof -
  from assms have "dict_get (requested_payments agg) k [] = requested_concat heap offers k"
    using requested_concat_absent [of offers k heap]
    by (auto simp: dict_get_def)
  then have "requested_total agg k =
               sum_list (map payment.amount (concat (map (\<lambda>x. list_at heap (payment_lists x) k) offers)))"
    by (simp add: requested_total_def requested_concat_def)
  also have "\<dots> = sum_list (map (\<lambda>x. requested_total (load heap x) k) offers)"
    by (induction offers) (simp_all add: requested_total_def list_at_load)
  finally show ?thesis .
qed

lemma load_keys: "map fst (requested_payments (load heap x)) = map fst (payment_lists x)"
  by (simp add: load_def comp_def split_def)

lemma aggregate_accepted:
  assumes sep: "separate_lists offers"
    and agg: "aggregate env heap offers = (heap', Inr obj)"
  shows "\<not> overlapping offers
           \<and> distinct (map fst (payment_lists obj))
           \<and> coin_spends (object_bundle obj) = concat (map (\<lambda>x. coin_spends (object_bundle x)) offers)
           \<and> (\<forall>k. map_of (requested_payments (load heap' obj)) k =
                  (if \<exists>x \<in> set offers. k \<in> fst ` set (payment_lists x)
                   then Some (requested_concat heap offers k) else None))
           \<and> post_init env (load heap' obj) = Inr ()"
proof -
  let ?tb = "\<lparr>coin_spends = [], aggregated_signature = 0\<rparr> :: ('a, 'b) spend_bundle"
  have no: "\<not> overlapping offers"
  proof
    assume "overlapping offers"
    then have "overlaps (set (map coin (coin_spends ?tb))) offers"
      by (simp add: overlaps_empty)
    from aggregate_loop_overlaps [OF this, of heap "[]"] agg show False
      by (auto simp: aggregate_def split: prod.splits sum.splits)
  qed
  then have no': "\<not> overlaps (set (map coin (coin_spends ?tb))) offers"
    by (simp add: overlaps_empty)
  from sep have s1: "list_all (\<lambda>obj. distinct (map fst (payment_lists obj))) offers"
    and s2: "distinct (concat (map (\<lambda>obj. map snd (payment_lists obj)) offers))"
    by (simp_all add: separate_lists_def)
  from aggregate_loop_sound [OF no' s1 s2, of "[]" heap]
  obtain h2 res where run: "aggregate_loop offers heap [] ?tb = (h2, Inr res)"
    and d: "distinct (map fst (payment_lists res))"
    and sp: "coin_spends (object_bundle res) = concat (map (\<lambda>x. coin_spends (object_bundle x)) offers)"
    and vals: "\<forall>k. map_option h2 (map_of (payment_lists res) k) =
                 (if k \<in> (\<Union>x \<in> set offers. fst ` set (payment_lists x))
                  then Some (requested_concat heap offers k) else None)"
    by (auto simp: list_at_def)
  from agg run have eq: "h2 = heap'" "res = obj" and pi: "post_init env (load heap' obj) = Inr ()"
    by (auto simp: aggregate_def split: sum.splits)
  from vals have "\<forall>k. map_of (requested_payments (load h2 res)) k =
                        (if \<exists>x \<in> set offers. k \<in> fst ` set (payment_lists x)
                         then Some (requested_concat heap offers k) else None)"
    by (simp add: load_map_of)
  with no d sp pi eq show ?thesis by simp
qed

lemma post_init_offered:
  "post_init env self = Inr u \<Longrightarrow> \<exists>oc. get_offered_coins env self = Inr oc"
  by (auto simp: post_init_cases split: sum.splits)

lemma is_valid_offered:
  "is_valid env self = Inr b \<Longrightarrow> \<exists>oc. get_offered_coins env self = Inr oc"
  by (auto simp: is_valid_def arbitrage_def get_offered_amounts_def split: sum.splits)

text \<open>
  Claim C6, for offers with separate payment lists and up to the range of \<open>uint64\<close>. Let
  the offers hold separate payment lists, let coin names be free of collisions on their
  input coins, let \<open>is_valid\<close> be true of every one of them, and let \<open>aggregate\<close> accept them.
  Then their input coins are pairwise disjoint; the offered coins of the aggregate are
  computed, and under every asset the payments it requests sum to no more than the coins it
  offers; and \<open>is_valid\<close> of the aggregate is true when all its totals fit in 64 bits. When
  one does not, \<open>is_valid\<close> fails with \<open>Overflow\<close>, as the amount views do.
\<close>

theorem aggregate_validity:
  assumes sep: "separate_lists offers"
    and inj: "inj_on (coin_name env) (\<Union>x \<in> set offers. input_coins x)"
    and valid: "list_all (\<lambda>x. is_valid env (load heap x) = Inr True) offers"
    and agg: "aggregate env heap offers = (heap', Inr obj)"
  shows "\<not> overlapping offers
           \<and> (\<exists>oc. get_offered_coins env (load heap' obj) = Inr oc
                 \<and> (\<forall>k. sum_list (map payment.amount (dict_get (requested_payments (load heap' obj)) k []))
                          \<le> sum_list (map coin.amount (dict_get oc k []))))
           \<and> (\<forall>k. requested_total (load heap' obj) k \<le> offered_total env (load heap' obj) k)
           \<and> is_valid env (load heap' obj) =
               (if (\<forall>k. fits (offered_total env (load heap' obj) k))
                     \<and> (\<forall>k. fits (requested_total (load heap' obj) k))
                then Inr True else Inl Overflow)"
proof -
  note acc = aggregate_accepted [OF sep agg]
  from acc have no: "\<not> overlapping offers" by blast
  from acc have dk: "distinct (map fst (requested_payments (load heap' obj)))"
    by (simp only: load_keys)
  from acc have sp: "coin_spends (bundle (load heap' obj)) =
                       concat (map (\<lambda>x. coin_spends (object_bundle x)) offers)"
    by (simp add: load_def)
  from acc have vals: "\<forall>k. map_of (requested_payments (load heap' obj)) k =
                  (if \<exists>x \<in> set offers. k \<in> fst ` set (payment_lists x)
                   then Some (requested_concat heap offers k) else None)"
    by blast
  from acc obtain oc where goc: "get_offered_coins env (load heap' obj) = Inr oc"
    using post_init_offered by blast
  have each: "requested_total (load heap x) k \<le> offered_total env (load heap x) k
                \<and> list_all (has_parent env (coin_spends (object_bundle x))) (additions env (object_bundle x))"
    if x: "x \<in> set offers" for x k
  proof -
    from valid x have v: "is_valid env (load heap x) = Inr True" by (simp add: list_all_iff)
    then obtain ocx where gx: "get_offered_coins env (load heap x) = Inr ocx"
      using is_valid_offered by blast
    from sep x have dx: "distinct (map fst (requested_payments (load heap x)))"
      by (simp only: load_keys) (simp add: separate_lists_def list_all_iff)
    from v is_valid_char [OF gx dx]
    have "requested_total (load heap x) k \<le> offered_total env (load heap x) k"
      by (auto split: if_splits)
    moreover from gx
    have "list_all (has_parent env (coin_spends (object_bundle x))) (additions env (object_bundle x))"
      using offered_loop_parents [of env "coin_spends (object_bundle x)" "additions env (object_bundle x)" "[]" ocx]
      by (simp add: get_offered_coins_def load_def)
    ultimately show ?thesis by blast
  qed
  have le: "requested_total (load heap' obj) k \<le> offered_total env (load heap' obj) k" for k
  proof -
    have "requested_total (load heap' obj) k = sum_list (map (\<lambda>x. requested_total (load heap x) k) offers)"
      by (rule requested_total_concat [OF vals])
    also have "\<dots> \<le> sum_list (map (\<lambda>x. offered_total env (load heap x) k) offers)"
      by (rule sum_list_mono) (simp add: each)
    also have "\<dots> = offered_total env (load heap' obj) k"
      by (rule offered_total_concat [OF sp no inj, symmetric]) (simp add: each)
    finally show ?thesis .
  qed
  have le': "sum_list (map payment.amount (dict_get (requested_payments (load heap' obj)) k []))
               \<le> sum_list (map coin.amount (dict_get oc k []))" for k
    using le [of k]
    by (simp only: requested_total_def offered_total_def get_offered_coins_dict_get [OF goc])
  have v: "is_valid env (load heap' obj) =
               (if (\<forall>k. fits (offered_total env (load heap' obj) k))
                     \<and> (\<forall>k. fits (requested_total (load heap' obj) k))
                then Inr True else Inl Overflow)"
    by (simp add: is_valid_char [OF goc dk] le)
  from no goc le' le v show ?thesis by blast
qed

lemmas validity_eval = aggregate_def load_def SpendBundle_aggregate_def
  objC_def objE_def objCE_def objX_def objY_def objXY_def coinX_def coinY_def valid_heap_def
  bundleD_def spendD_def coinD_def paymentC_def paymentZ_def input_coins_def

theorem aggregate_validity_witness:
  "separate_lists [objC, objE]
     \<and> inj_on (coin_name sexp_env) (\<Union>x \<in> set [objC, objE]. input_coins x)
     \<and> list_all (\<lambda>x. is_valid sexp_env (load valid_heap x) = Inr True) [objC, objE]
     \<and> snd (aggregate sexp_env valid_heap [objC, objE]) = Inr objCE
     \<and> is_valid sexp_env (load (fst (aggregate sexp_env valid_heap [objC, objE])) objCE) = Inr True"
proof -
  have sep: "separate_lists [objC, objE]"
    by (simp add: separate_lists_def objC_def objE_def)
  have inj: "inj_on (coin_name sexp_env) (\<Union>x \<in> set [objC, objE]. input_coins x)"
    by (simp add: validity_eval sample_defs sexp_env_def sexp_coin_name_def)
  have valid: "list_all (\<lambda>x. is_valid sexp_env (load valid_heap x) = Inr True) [objC, objE]"
    by (simp add: validity_eval sample_defs sexp_eval)
  have res: "snd (aggregate sexp_env valid_heap [objC, objE]) = Inr objCE"
    by (simp add: validity_eval sample_defs sexp_eval)
  then have agg: "aggregate sexp_env valid_heap [objC, objE] =
                    (fst (aggregate sexp_env valid_heap [objC, objE]), Inr objCE)"
    by (simp add: prod_eq_iff)
  have no: "is_valid sexp_env (load (fst (aggregate sexp_env valid_heap [objC, objE])) objCE)
              \<noteq> Inl Overflow"
    by (simp add: validity_eval sample_defs sexp_eval)
  from aggregate_validity [OF sep inj valid agg]
  have "is_valid sexp_env (load (fst (aggregate sexp_env valid_heap [objC, objE])) objCE) =
               (if (\<forall>k. fits (offered_total sexp_env (load (fst (aggregate sexp_env valid_heap [objC, objE])) objCE) k))
                     \<and> (\<forall>k. fits (requested_total (load (fst (aggregate sexp_env valid_heap [objC, objE])) objCE) k))
                then Inr True else Inl Overflow)"
    by blast
  with no
  have "is_valid sexp_env (load (fst (aggregate sexp_env valid_heap [objC, objE])) objCE) = Inr True"
    by (auto split: if_splits)
  with sep inj valid res show ?thesis by blast
qed

text \<open>
  The payment lists must be separate. Offers P and Q are valid and disjoint and their totals
  fit, but Q requests the token 9 with the list object that P requests the native asset
  with: the aggregate binds that one object under both keys and extends it with the native
  payment of Q, so it requests 600 of the token against 500 offered.
\<close>

lemma aggregate_shared_list:
  "is_valid sexp_env (load shared_heap objP) = Inr True
     \<and> is_valid sexp_env (load shared_heap objQ) = Inr True
     \<and> input_coins objP \<inter> input_coins objQ = {}
     \<and> snd (aggregate sexp_env shared_heap [objP, objQ]) = Inr objPQ
     \<and> arbitrage sexp_env (load (fst (aggregate sexp_env shared_heap [objP, objQ])) objPQ)
          = Inr [(None, 500), (Some 9, - 100)]
     \<and> is_valid sexp_env (load (fst (aggregate sexp_env shared_heap [objP, objQ])) objPQ)
          = Inr False"
  by (simp add: aggregate_def load_def SpendBundle_aggregate_def input_coins_def
        objP_def objQ_def objPQ_def shared_heap_def paymentP_def paymentQ_def coinD_def
        sample_defs sexp_eval)

text \<open>
  The claim as stated has \<open>is_valid\<close> true of every such aggregate: offers X and Y are
  accepted, valid and disjoint, and their aggregate offers \<open>2 ^ 64\<close> of the native asset, on
  which \<open>is_valid\<close> fails.
\<close>

theorem aggregate_overflow_counterexample:
  "Offer sexp_env [] (object_bundle objX) = Inr (load valid_heap objX)
     \<and> Offer sexp_env [] (object_bundle objY) = Inr (load valid_heap objY)
     \<and> is_valid sexp_env (load valid_heap objX) = Inr True
     \<and> is_valid sexp_env (load valid_heap objY) = Inr True
     \<and> input_coins objX \<inter> input_coins objY = {}
     \<and> snd (aggregate sexp_env valid_heap [objX, objY]) = Inr objXY
     \<and> is_valid sexp_env (load (fst (aggregate sexp_env valid_heap [objX, objY])) objXY)
          = Inl Overflow"
  by (simp add: validity_eval sexp_eval)

end
